theory Spec2Isabelle
  imports Complex_Main "HOL-Library.Word"
begin

section \<open>Python values\<close>

text \<open>
  A Python \<^verbatim>\<open>str\<close> is a sequence of Unicode code points, so it is modelled as a list of
  natural numbers. String literals of the source are written with \<open>ascii\<close>.
\<close>

type_synonym pystr = "nat list"

definition ascii :: "string \<Rightarrow> pystr" where
  "ascii s = map of_char s"

text \<open>\<^verbatim>\<open>str(n)\<close> and \<^verbatim>\<open>f"{n}"\<close> for an integer: decimal digits, most significant first.\<close>

function dec_digits :: "nat \<Rightarrow> nat list" where
  "dec_digits n = (if n < 10 then [n] else dec_digits (n div 10) @ [n mod 10])"
  by pat_completeness auto
termination
  by (relation "measure id") auto

declare dec_digits.simps [simp del]

definition digit_char :: "nat \<Rightarrow> nat" where
  "digit_char d = 48 + d"

definition str_nat :: "nat \<Rightarrow> pystr" where
  "str_nat n = map digit_char (dec_digits n)"

definition str_int :: "int \<Rightarrow> pystr" where
  "str_int i = (if i < 0 then 45 # str_nat (nat (- i)) else str_nat (nat i))"

text \<open>The \<^verbatim>\<open>%0wd\<close> format that \<^verbatim>\<open>datetime.isoformat\<close> uses for its fields.\<close>

definition zero_pad :: "nat \<Rightarrow> nat \<Rightarrow> pystr" where
  "zero_pad w n = replicate (w - length (dec_digits n)) 48 @ str_nat n"

text \<open>
  A finite Python \<^verbatim>\<open>float\<close> is modelled by the output of the shortest-repr conversion that
  \<^verbatim>\<open>float.__repr__\<close> is built on: a sign, the significant decimal digits without trailing
  zeros, and the position of the decimal point relative to the first digit. For IEEE doubles
  this triple determines the float and is determined by it. Zero has the digits \<open>[0]\<close> and
  the point at 1.
\<close>

datatype pyfloat = PyFloat (fneg: bool) (fdigits: "nat list") (fpoint: int)

datatype pyval =
    PNone
  | PBool bool
  | PInt int
  | PFloat pyfloat
  | PStr pystr
  | PList "pyval list"
  | PDict "(pystr \<times> pyval) list"

text \<open>A Python \<^verbatim>\<open>Decimal\<close>: sign, coefficient and exponent.\<close>

datatype pydecimal = Decimal (dneg: bool) (dcoeff: nat) (dexp: int)

fun strip_zeros :: "nat list \<Rightarrow> nat list" where
  "strip_zeros [] = []"
| "strip_zeros (d # ds) = (if d = 0 then strip_zeros ds else d # ds)"

definition strip_trailing_zeros :: "nat list \<Rightarrow> nat list" where
  "strip_trailing_zeros ds = rev (strip_zeros (rev ds))"

text \<open>
  \<^verbatim>\<open>float(d)\<close> for a \<^verbatim>\<open>Decimal\<close>, and the float nearest to a decimal number in general. The
  model is exact for decimals of at most 15 significant digits inside the range of
  doubles, where the nearest double has the decimal itself as its shortest repr.
\<close>

definition float_of_decimal :: "pydecimal \<Rightarrow> pyfloat" where
  "float_of_decimal d =
     (if dcoeff d = 0 then PyFloat (dneg d) [0] 1
      else PyFloat (dneg d) (strip_trailing_zeros (dec_digits (dcoeff d)))
             (int (length (dec_digits (dcoeff d))) + dexp d))"

fun digits_value :: "nat list \<Rightarrow> nat" where
  "digits_value [] = 0"
| "digits_value (d # ds) = d * 10 ^ length ds + digits_value ds"

definition float_value :: "pyfloat \<Rightarrow> rat" where
  "float_value f =
     (if fneg f then - 1 else 1) * of_nat (digits_value (fdigits f))
       * power_int 10 (fpoint f - int (length (fdigits f)))"

text \<open>
  \<^verbatim>\<open>float.__repr__\<close>: fixed notation when the decimal point position is in \<open>(-4, 16]\<close>,
  always with at least one digit after the point; exponent notation otherwise, the exponent
  with a sign and at least two digits.
\<close>

definition float_repr :: "pyfloat \<Rightarrow> pystr" where
  "float_repr f =
     (let ds = map digit_char (fdigits f); n = int (length ds); p = fpoint f;
          sgn = (if fneg f then ascii ''-'' else [])
      in if p \<le> - 4 \<or> 16 < p then
           sgn @ take 1 ds @ (if 1 < n then ascii ''.'' @ drop 1 ds else [])
             @ ascii ''e'' @ (if p - 1 < 0 then ascii ''-'' else ascii ''+'')
             @ zero_pad 2 (nat \<bar>p - 1\<bar>)
         else if p \<le> 0 then
           sgn @ ascii ''0.'' @ replicate (nat (- p)) 48 @ ds
         else if p < n then
           sgn @ take (nat p) ds @ ascii ''.'' @ drop (nat p) ds
         else
           sgn @ ds @ replicate (nat (p - n)) 48 @ ascii ''.0'')"

section \<open>Library calls of the record generator\<close>

text \<open>
  The standard library's \<^verbatim>\<open>random\<close> module, as documented. Each call takes the raw draw it
  consumes as an argument: \<^verbatim>\<open>random()\<close> yields a multiple of \<open>2\<^sup>-\<^sup>5\<^sup>3\<close> in \<open>[0, 1)\<close>,
  \<^verbatim>\<open>uniform(a, b)\<close> is \<^verbatim>\<open>a + (b - a) * random()\<close>, \<^verbatim>\<open>randint(a, b)\<close> is uniform on
  \<open>a..b\<close> and \<^verbatim>\<open>choice(seq)\<close> indexes the sequence with a draw below its length. Every
  call site passes a non-empty literal list to \<^verbatim>\<open>choice\<close> and \<open>a \<le> b\<close> to \<^verbatim>\<open>randint\<close>.
  The arithmetic of \<open>uniform\<close> is exact here, where the code rounds to a double.
\<close>

definition random_unit :: "nat \<Rightarrow> rat" where
  "random_unit n = of_nat (n mod 2 ^ 53) / 2 ^ 53"

definition uniform :: "rat \<Rightarrow> rat \<Rightarrow> nat \<Rightarrow> rat" where
  "uniform a b n = a + (b - a) * random_unit n"

definition randint :: "int \<Rightarrow> int \<Rightarrow> nat \<Rightarrow> int" where
  "randint a b n = a + int (n mod nat (b - a + 1))"

definition choice :: "'a list \<Rightarrow> nat \<Rightarrow> 'a" where
  "choice xs n = xs ! (n mod length xs)"

text \<open>
  The builtin \<^verbatim>\<open>round(x, ndigits)\<close> on a float: the decimal with \<open>ndigits\<close> places nearest
  to \<open>x\<close>, ties to the even neighbour, then the double nearest to that decimal.
\<close>

definition round_half_even :: "rat \<Rightarrow> int" where
  "round_half_even x =
     (let f = \<lfloor>x\<rfloor>; d = x - of_int f
      in if d < 1 / 2 then f else if 1 / 2 < d then f + 1
         else if even f then f else f + 1)"

definition py_round :: "rat \<Rightarrow> nat \<Rightarrow> pyfloat" where
  "py_round x ndigits =
     (let k = round_half_even (x * 10 ^ ndigits)
      in float_of_decimal (Decimal (k < 0) (nat \<bar>k\<bar>) (- int ndigits)))"

text \<open>\<^verbatim>\<open>datetime.utcnow()\<close> and \<^verbatim>\<open>isoformat()\<close> with its default \<^verbatim>\<open>timespec='auto'\<close>.\<close>

record datetime =
  year :: nat
  month :: nat
  day :: nat
  hour :: nat
  minute :: nat
  second :: nat
  microsecond :: nat

definition valid_datetime :: "datetime \<Rightarrow> bool" where
  "valid_datetime t \<longleftrightarrow>
     1 \<le> year t \<and> year t \<le> 9999 \<and> 1 \<le> month t \<and> month t \<le> 12 \<and>
     1 \<le> day t \<and> day t \<le> 31 \<and> hour t < 24 \<and> minute t < 60 \<and> second t < 60 \<and>
     microsecond t < 1000000"

definition isoformat :: "datetime \<Rightarrow> pystr" where
  "isoformat t =
     zero_pad 4 (year t) @ ascii ''-'' @ zero_pad 2 (month t) @ ascii ''-''
       @ zero_pad 2 (day t) @ ascii ''T'' @ zero_pad 2 (hour t) @ ascii '':''
       @ zero_pad 2 (minute t) @ ascii '':'' @ zero_pad 2 (second t)
       @ (if microsecond t \<noteq> 0 then ascii ''.'' @ zero_pad 6 (microsecond t) else [])"

text \<open>
  What one call of \<^verbatim>\<open>generate_transaction\<close> takes from outside: the clock, the raw draws of
  the seven \<^verbatim>\<open>random\<close> calls it makes, and the values the Faker instance returns.
\<close>

record gen_src =
  utcnow :: datetime
  draw_customer :: nat
  draw_type :: nat
  draw_category :: nat
  draw_amount :: nat
  draw_currency :: nat
  draw_status :: nat
  draw_merchant :: nat
  draw_payment :: nat
  draw_device :: nat
  draw_campaign :: nat
  fake_uuid4 :: pystr
  fake_name :: pystr
  fake_email :: pystr
  fake_company :: pystr
  fake_city :: pystr
  fake_country :: pystr
  fake_latitude :: pydecimal
  fake_longitude :: pydecimal
  fake_ipv4 :: pystr
  fake_user_agent :: pystr
  fake_uuid4_session :: pystr
  fake_url :: pystr

section \<open>The record generator\<close>

definition transaction_types :: "string list" where
  "transaction_types = [''purchase'', ''refund'', ''payment'', ''transfer'', ''deposit'', ''withdrawal'']"

definition categories :: "string list" where
  "categories = [''electronics'', ''clothing'', ''food'', ''services'', ''utilities'', ''entertainment'']"

definition statuses :: "string list" where
  "statuses = [''completed'', ''pending'', ''failed'', ''processing'']"

definition currencies :: "string list" where
  "currencies = [''USD'', ''EUR'', ''GBP'']"

definition payment_methods :: "string list" where
  "payment_methods = [''credit_card'', ''debit_card'', ''paypal'', ''bank_transfer'', ''cash'']"

definition device_types :: "string list" where
  "device_types = [''mobile'', ''web'', ''pos'', ''atm'']"

definition generate_transaction :: "gen_src \<Rightarrow> pyval" where
  "generate_transaction g = PDict
     [(ascii ''transaction_id'', PStr (fake_uuid4 g)),
      (ascii ''timestamp'', PStr (isoformat (utcnow g) @ ascii ''Z'')),
      (ascii ''customer_id'', PStr (ascii ''CUST-'' @ str_int (randint 10000 99999 (draw_customer g)))),
      (ascii ''customer_name'', PStr (fake_name g)),
      (ascii ''customer_email'', PStr (fake_email g)),
      (ascii ''transaction_type'', PStr (ascii (choice transaction_types (draw_type g)))),
      (ascii ''category'', PStr (ascii (choice categories (draw_category g)))),
      (ascii ''amount'', PFloat (py_round (uniform 10 5000 (draw_amount g)) 2)),
      (ascii ''currency'', PStr (ascii (choice currencies (draw_currency g)))),
      (ascii ''status'', PStr (ascii (choice statuses (draw_status g)))),
      (ascii ''merchant_id'', PStr (ascii ''MERCH-'' @ str_int (randint 1000 9999 (draw_merchant g)))),
      (ascii ''merchant_name'', PStr (fake_company g)),
      (ascii ''location'', PDict
         [(ascii ''city'', PStr (fake_city g)),
          (ascii ''country'', PStr (fake_country g)),
          (ascii ''latitude'', PFloat (float_of_decimal (fake_latitude g))),
          (ascii ''longitude'', PFloat (float_of_decimal (fake_longitude g)))]),
      (ascii ''payment_method'', PStr (ascii (choice payment_methods (draw_payment g)))),
      (ascii ''device_type'', PStr (ascii (choice device_types (draw_device g)))),
      (ascii ''ip_address'', PStr (fake_ipv4 g)),
      (ascii ''user_agent'', PStr (fake_user_agent g)),
      (ascii ''metadata'', PDict
         [(ascii ''session_id'', PStr (fake_uuid4_session g)),
          (ascii ''referrer'', PStr (fake_url g)),
          (ascii ''campaign_id'', PStr (ascii ''CAMP-'' @ str_int (randint 100 999 (draw_campaign g))))])]"

text \<open>Subscription \<^verbatim>\<open>d[k]\<close> on a dict; a missing key raises \<^verbatim>\<open>KeyError\<close>.\<close>

fun dict_get :: "pyval \<Rightarrow> pystr \<Rightarrow> pyval option" where
  "dict_get (PDict kvs) k = map_of kvs k"
| "dict_get _ k = None"

section \<open>Serialisation: \<^verbatim>\<open>json.dumps(message_data, indent=2)\<close> and \<^verbatim>\<open>.encode('utf-8')\<close>\<close>

text \<open>
  With the default \<^verbatim>\<open>ensure_ascii=True\<close> the encoder escapes the quote, the backslash and
  every code point outside \<open>0x20..0x7e\<close>; code points above \<open>0xffff\<close> become a surrogate
  pair of \<^verbatim>\<open>\u\<close> escapes.
\<close>

definition hex_char :: "nat \<Rightarrow> nat" where
  "hex_char d = (if d < 10 then 48 + d else 87 + d)"

definition hex4 :: "nat \<Rightarrow> pystr" where
  "hex4 n = [hex_char (n div 4096 mod 16), hex_char (n div 256 mod 16),
             hex_char (n div 16 mod 16), hex_char (n mod 16)]"

definition escape_char :: "nat \<Rightarrow> pystr" where
  "escape_char c =
     (if c = 34 then [92, 34]
      else if c = 92 then [92, 92]
      else if c = 8 then [92, 98]
      else if c = 12 then [92, 102]
      else if c = 10 then [92, 110]
      else if c = 13 then [92, 114]
      else if c = 9 then [92, 116]
      else if 32 \<le> c \<and> c \<le> 126 then [c]
      else if c < 65536 then 92 # 117 # hex4 c
      else 92 # 117 # hex4 (55296 + (c - 65536) div 1024 mod 1024)
             @ 92 # 117 # hex4 (56320 + (c - 65536) mod 1024))"

definition json_str :: "pystr \<Rightarrow> pystr" where
  "json_str s = 34 # concat (map escape_char s) @ [34]"

definition newline_indent :: "nat \<Rightarrow> pystr" where
  "newline_indent level = 10 # replicate (2 * level) 32"

text \<open>
  The encoder at nesting depth \<open>level\<close>, with \<^verbatim>\<open>indent=2\<close> and the separators \<^verbatim>\<open>','\<close> and
  \<^verbatim>\<open>': '\<close> that an indent implies. An empty container is written without a line break.
\<close>

fun dumps :: "nat \<Rightarrow> pyval \<Rightarrow> pystr"
  and dumps_elems :: "nat \<Rightarrow> pyval list \<Rightarrow> pystr"
  and dumps_items :: "nat \<Rightarrow> (pystr \<times> pyval) list \<Rightarrow> pystr" where
  "dumps level PNone = ascii ''null''"
| "dumps level (PBool b) = (if b then ascii ''true'' else ascii ''false'')"
| "dumps level (PInt i) = str_int i"
| "dumps level (PFloat f) = float_repr f"
| "dumps level (PStr s) = json_str s"
| "dumps level (PList vs) =
     (if vs = [] then ascii ''[]''
      else ascii ''['' @ newline_indent (Suc level) @ dumps_elems (Suc level) vs
             @ newline_indent level @ ascii '']'')"
| "dumps level (PDict kvs) =
     (if kvs = [] then ascii ''{}''
      else ascii ''{'' @ newline_indent (Suc level) @ dumps_items (Suc level) kvs
             @ newline_indent level @ ascii ''}'')"
| "dumps_elems level [] = []"
| "dumps_elems level (v # vs) =
     dumps level v
       @ (if vs = [] then [] else ascii '','' @ newline_indent level @ dumps_elems level vs)"
| "dumps_items level [] = []"
| "dumps_items level (kv # kvs) =
     json_str (fst kv) @ ascii '': '' @ dumps level (snd kv)
       @ (if kvs = [] then [] else ascii '','' @ newline_indent level @ dumps_items level kvs)"

definition json_dumps :: "pyval \<Rightarrow> pystr" where
  "json_dumps obj = dumps 0 obj"

type_synonym byte = "8 word"

text \<open>\<^verbatim>\<open>str.encode('utf-8')\<close>; \<open>None\<close> is \<^verbatim>\<open>UnicodeEncodeError\<close> (a surrogate code point).\<close>

definition utf8_encode_char :: "nat \<Rightarrow> byte list option" where
  "utf8_encode_char c =
     (if c < 128 then Some [of_nat c]
      else if c < 2048 then Some [of_nat (192 + c div 64), of_nat (128 + c mod 64)]
      else if 55296 \<le> c \<and> c \<le> 57343 then None
      else if c < 65536 then
        Some [of_nat (224 + c div 4096), of_nat (128 + c div 64 mod 64), of_nat (128 + c mod 64)]
      else if c < 1114112 then
        Some [of_nat (240 + c div 262144), of_nat (128 + c div 4096 mod 64),
              of_nat (128 + c div 64 mod 64), of_nat (128 + c mod 64)]
      else None)"

fun utf8_encode :: "pystr \<Rightarrow> byte list option" where
  "utf8_encode [] = Some []"
| "utf8_encode (c # cs) =
     (case utf8_encode_char c of None \<Rightarrow> None
      | Some bs \<Rightarrow> (case utf8_encode cs of None \<Rightarrow> None | Some rest \<Rightarrow> Some (bs @ rest)))"

section \<open>Exceptions, console and the calls into the queue client\<close>

text \<open>
  The exceptions a call can raise, by the classes the handlers of \<^verbatim>\<open>main\<close> tell apart:
  instances of \<^verbatim>\<open>Exception\<close>, \<^verbatim>\<open>KeyboardInterrupt\<close>, and any other \<^verbatim>\<open>BaseException\<close>.
\<close>

datatype exn = Exception string | KeyboardInterrupt | BaseException string

datatype handler = Except_Exception | Except_KeyboardInterrupt | Except_bare

fun catches :: "handler \<Rightarrow> exn \<Rightarrow> bool" where
  "catches Except_Exception (Exception m) = True"
| "catches Except_Exception _ = False"
| "catches Except_KeyboardInterrupt KeyboardInterrupt = True"
| "catches Except_KeyboardInterrupt _ = False"
| "catches Except_bare _ = True"

record config =
  mq_host :: pystr
  mq_port :: pystr
  mq_queue_manager :: pystr
  mq_channel :: pystr
  mq_queue :: pystr
  mq_user :: pystr
  mq_password :: pystr
  message_interval :: int

text \<open>The lines \<^verbatim>\<open>print\<close> writes, by the statement that writes them and the values it formats.\<close>

datatype log_line =
    Rule_line
  | Title_line
  | Target_queue pystr
  | Message_interval int
  | Blank_line
  | Connecting pystr pystr
  | Queue_manager_channel pystr pystr
  | Connected pystr
  | Connect_failed exn
  | Message_sent nat pyval
  | Transaction_id pyval
  | Type_amount pyval pyval pyval
  | Customer pyval pyval
  | Status pyval
  | Dash_line
  | Send_failed exn
  | Stopped_by_user
  | Loop_error exn
  | Disconnected nat

text \<open>
  The calls that leave the program, and \<open>Send_message\<close> for a finished call of
  \<^verbatim>\<open>send_message\<close> itself. The history lists each call with what it raised.
\<close>

datatype op =
    Connect pystr pystr pystr pystr pystr
  | Queue_open pystr
  | Queue_put "byte list"
  | Queue_close
  | Send_message
  | Sleep int
  | Disconnect

record world =
  console :: "log_line list"
  history :: "(op \<times> exn option) list"

definition print :: "log_line \<Rightarrow> world \<Rightarrow> world" where
  "print l w = w\<lparr>console := console w @ [l]\<rparr>"

definition call :: "op \<Rightarrow> exn option \<Rightarrow> world \<Rightarrow> world" where
  "call c r w = w\<lparr>history := history w @ [(c, r)]\<rparr>"

text \<open>
  What the surroundings do in one pass of the loop and in one run: for each call, the
  exception it raises, if any. A \<^verbatim>\<open>KeyboardInterrupt\<close> is delivered as the exception of the
  call it arrives in.
\<close>

record iter_env =
  gen_raises :: "exn option"
  gen :: gen_src
  open_raises :: "exn option"
  put_raises :: "exn option"
  close_raises :: "exn option"
  sleep_raises :: "exn option"

record env =
  connect_raises :: "exn option"
  iterations :: "iter_env list"
  disconnect_raises :: "exn option"

section \<open>Connecting and publishing\<close>

definition connect_to_mq :: "config \<Rightarrow> exn option \<Rightarrow> world \<Rightarrow> exn option \<times> world" where
  "connect_to_mq cfg raised w =
     (let w1 = print (Connecting (mq_host cfg) (mq_port cfg)) w;
          w2 = print (Queue_manager_channel (mq_queue_manager cfg) (mq_channel cfg)) w1;
          conn_info = mq_host cfg @ ascii ''('' @ mq_port cfg @ ascii '')'';
          w3 = call (Connect (mq_queue_manager cfg) (mq_channel cfg) conn_info
                       (mq_user cfg) (mq_password cfg)) raised w2
      in case raised of
           Some e \<Rightarrow> (Some e, w3)
         | None \<Rightarrow> (None, print (Connected (mq_queue_manager cfg)) w3))"

text \<open>
  \<^verbatim>\<open>send_message\<close> opens a queue object, serialises, puts and closes, one statement after
  the other: an exception of any of them leaves the function at once.
\<close>

definition send_message :: "iter_env \<Rightarrow> pystr \<Rightarrow> pyval \<Rightarrow> world \<Rightarrow> (exn + pystr) \<times> world" where
  "send_message q queue_name message_data w =
     (let w1 = call (Queue_open queue_name) (open_raises q) w
      in case open_raises q of
           Some e \<Rightarrow> (Inl e, w1)
         | None \<Rightarrow>
             let message_json = json_dumps message_data
             in (case utf8_encode message_json of
                   None \<Rightarrow> (Inl (Exception ''UnicodeEncodeError''), w1)
                 | Some payload \<Rightarrow>
                     let w2 = call (Queue_put payload) (put_raises q) w1
                     in (case put_raises q of
                           Some e \<Rightarrow> (Inl e, w2)
                         | None \<Rightarrow>
                             let w3 = call Queue_close (close_raises q) w2
                             in (case close_raises q of
                                   Some e \<Rightarrow> (Inl e, w3)
                                 | None \<Rightarrow> (Inr message_json, w3)))))"

section \<open>The producer loop\<close>

text \<open>The six \<^verbatim>\<open>print\<close> statements after a successful send; each subscription can raise.\<close>

definition report_sent :: "nat \<Rightarrow> pyval \<Rightarrow> world \<Rightarrow> exn option \<times> world" where
  "report_sent message_count transaction w =
     (case dict_get transaction (ascii ''timestamp'') of
        None \<Rightarrow> (Some (Exception ''KeyError''), w)
      | Some ts \<Rightarrow>
     let w1 = print (Message_sent message_count ts) w in
     (case dict_get transaction (ascii ''transaction_id'') of
        None \<Rightarrow> (Some (Exception ''KeyError''), w1)
      | Some tid \<Rightarrow>
     let w2 = print (Transaction_id tid) w1 in
     (case dict_get transaction (ascii ''transaction_type'') of
        None \<Rightarrow> (Some (Exception ''KeyError''), w2)
      | Some ty \<Rightarrow>
     (case dict_get transaction (ascii ''currency'') of
        None \<Rightarrow> (Some (Exception ''KeyError''), w2)
      | Some cur \<Rightarrow>
     (case dict_get transaction (ascii ''amount'') of
        None \<Rightarrow> (Some (Exception ''KeyError''), w2)
      | Some amt \<Rightarrow>
     let w3 = print (Type_amount ty cur amt) w2 in
     (case dict_get transaction (ascii ''customer_name'') of
        None \<Rightarrow> (Some (Exception ''KeyError''), w3)
      | Some cname \<Rightarrow>
     (case dict_get transaction (ascii ''customer_id'') of
        None \<Rightarrow> (Some (Exception ''KeyError''), w3)
      | Some cid \<Rightarrow>
     let w4 = print (Customer cname cid) w3 in
     (case dict_get transaction (ascii ''status'') of
        None \<Rightarrow> (Some (Exception ''KeyError''), w4)
      | Some st \<Rightarrow>
     (None, print Dash_line (print (Status st) w4))))))))))"

text \<open>\<^verbatim>\<open>time.sleep\<close> raises \<^verbatim>\<open>ValueError\<close> on a negative length before it blocks.\<close>

definition time_sleep :: "int \<Rightarrow> exn option \<Rightarrow> world \<Rightarrow> exn option \<times> world" where
  "time_sleep secs raised w =
     (let r = (if secs < 0 then Some (Exception ''ValueError'') else raised)
      in (r, call (Sleep secs) r w))"

text \<open>
  One pass through the body of \<^verbatim>\<open>while True\<close>. The result is the exception that leaves the
  body, if any, the counter and the world. The inner \<^verbatim>\<open>try\<close> covers \<^verbatim>\<open>send_message\<close>, the
  increment and the prints; its handler is \<^verbatim>\<open>except Exception\<close>.
\<close>

definition loop_body :: "config \<Rightarrow> iter_env \<Rightarrow> nat \<times> world \<Rightarrow> exn option \<times> nat \<times> world" where
  "loop_body cfg q s =
     (let message_count = fst s; w = snd s
      in case gen_raises q of
           Some e \<Rightarrow> (Some e, message_count, w)
         | None \<Rightarrow>
             let transaction = generate_transaction (gen q);
                 (sent, w1) = send_message q (mq_queue cfg) transaction w;
                 w2 = call Send_message (case sent of Inl e \<Rightarrow> Some e | Inr _ \<Rightarrow> None) w1;
                 (raised, message_count', w3) =
                   (case sent of
                      Inl e \<Rightarrow> (Some e, message_count, w2)
                    | Inr message_json \<Rightarrow>
                        let (r, w') = report_sent (Suc message_count) transaction w2
                        in (r, Suc message_count, w'))
             in (case raised of
                   None \<Rightarrow>
                     let (r, w4) = time_sleep (message_interval cfg) (sleep_raises q) w3
                     in (r, message_count', w4)
                 | Some e \<Rightarrow>
                     if catches Except_Exception e then
                       let (r, w4) = time_sleep (message_interval cfg) (sleep_raises q)
                                       (print (Send_failed e) w3)
                       in (r, message_count', w4)
                     else (Some e, message_count', w3)))"

text \<open>
  \<^verbatim>\<open>while True\<close> over the passes the surroundings are given for. The loop has no exit of
  its own: \<open>None\<close> says that it is still running when the given passes are used up.
\<close>

fun producer_loop :: "config \<Rightarrow> iter_env list \<Rightarrow> nat \<times> world \<Rightarrow> exn option \<times> nat \<times> world" where
  "producer_loop cfg [] s = (None, s)"
| "producer_loop cfg (q # qs) s =
     (case loop_body cfg q s of
        (None, s') \<Rightarrow> producer_loop cfg qs s'
      | (Some e, s') \<Rightarrow> (Some e, s'))"

text \<open>
  The \<^verbatim>\<open>finally\<close> block: \<^verbatim>\<open>disconnect\<close> and the summary in a \<^verbatim>\<open>try\<close> with a bare
  \<^verbatim>\<open>except: pass\<close>. The result is the exception that leaves the block, if any.
\<close>

definition shutdown :: "exn option \<Rightarrow> nat \<Rightarrow> world \<Rightarrow> exn option \<times> world" where
  "shutdown raised message_count w =
     (let w1 = call Disconnect raised w
      in case raised of
           None \<Rightarrow> (None, print (Disconnected message_count) w1)
         | Some e \<Rightarrow> if catches Except_bare e then (None, w1) else (Some e, w1))"

datatype result =
    Startup_failed world
  | Startup_raised exn world
  | Looping nat world
  | Stopped "exn option" nat world

definition banner :: "config \<Rightarrow> world \<Rightarrow> world" where
  "banner cfg w =
     print Blank_line (print Rule_line (print (Message_interval (message_interval cfg))
       (print (Target_queue (mq_queue cfg)) (print Rule_line (print Title_line
         (print Rule_line w))))))"

text \<open>
  \<^verbatim>\<open>main\<close>. \<open>Startup_failed\<close> is the \<^verbatim>\<open>return\<close> of the first handler, \<open>Startup_raised\<close> an
  exception of \<^verbatim>\<open>connect_to_mq\<close> that \<^verbatim>\<open>except Exception\<close> does not catch, \<open>Looping\<close> the
  loop still running, and \<open>Stopped\<close> the end of the \<^verbatim>\<open>finally\<close> block, with the exception
  that leaves \<^verbatim>\<open>main\<close> then, if any.
\<close>

definition main :: "config \<Rightarrow> env \<Rightarrow> result" where
  "main cfg ev =
     (let w0 = banner cfg \<lparr>console = [], history = []\<rparr>
      in case connect_to_mq cfg (connect_raises ev) w0 of
           (Some e, w1) \<Rightarrow>
             if catches Except_Exception e then Startup_failed (print (Connect_failed e) w1)
             else Startup_raised e w1
         | (None, w1) \<Rightarrow>
             let message_count = 0
             in (case producer_loop cfg (iterations ev) (message_count, w1) of
                   (None, n, w2) \<Rightarrow> Looping n w2
                 | (Some e, n, w2) \<Rightarrow>
                     let (pending, w3) =
                           (if catches Except_KeyboardInterrupt e then (None, print Stopped_by_user w2)
                            else if catches Except_Exception e then (None, print (Loop_error e) w2)
                            else (Some e, w2));
                         (raised, w4) = shutdown (disconnect_raises ev) n w3
                     in Stopped (case raised of Some e' \<Rightarrow> Some e' | None \<Rightarrow> pending) n w4))"

text \<open>Readings of the history and the console that the properties below are stated with.\<close>

definition published :: "world \<Rightarrow> nat" where
  "published w = length (filter (\<lambda>c. c = (Send_message, None)) (history w))"

definition calls_of :: "(op \<Rightarrow> bool) \<Rightarrow> world \<Rightarrow> nat" where
  "calls_of P w = length (filter (\<lambda>c. P (fst c)) (history w))"

fun is_connect :: "op \<Rightarrow> bool" where
  "is_connect (Connect a b c d e) = True"
| "is_connect _ = False"

fun is_queue_call :: "op \<Rightarrow> bool" where
  "is_queue_call (Queue_open n) = True"
| "is_queue_call (Queue_put p) = True"
| "is_queue_call Queue_close = True"
| "is_queue_call Send_message = True"
| "is_queue_call _ = False"

section \<open>Readings of a run\<close>

text \<open>Text that \<^verbatim>\<open>.encode('utf-8')\<close> maps to one byte per character.\<close>

definition is_ascii :: "pystr \<Rightarrow> bool" where
  "is_ascii s = list_all (\<lambda>c. c < 128) s"

text \<open>Values whose floats carry decimal digits, as every float made by the generator does.\<close>

fun decimal_floats :: "pyval \<Rightarrow> bool" where
  "decimal_floats (PFloat f) = list_all (\<lambda>d. d < 10) (fdigits f)"
| "decimal_floats (PList vs) = list_all decimal_floats vs"
| "decimal_floats (PDict kvs) = list_all (\<lambda>kv. decimal_floats (snd kv)) kvs"
| "decimal_floats _ = True"

text \<open>
  The exception that the three queue calls of one \<^verbatim>\<open>send_message\<close> raise, if any: the
  first of them in program order. The exception that leaves one pass of the loop body: one
  raised while generating, one of the queue calls that \<^verbatim>\<open>except Exception\<close> does not
  catch, or the one of \<^verbatim>\<open>time.sleep\<close>.
\<close>

definition queue_raises :: "iter_env \<Rightarrow> exn option" where
  "queue_raises q =
     (case open_raises q of
        Some e \<Rightarrow> Some e
      | None \<Rightarrow> (case put_raises q of Some e \<Rightarrow> Some e | None \<Rightarrow> close_raises q))"

definition sleep_outcome :: "config \<Rightarrow> iter_env \<Rightarrow> exn option" where
  "sleep_outcome cfg q =
     (if message_interval cfg < 0 then Some (Exception ''ValueError'') else sleep_raises q)"

definition leaves_body :: "config \<Rightarrow> iter_env \<Rightarrow> exn option" where
  "leaves_body cfg q =
     (case gen_raises q of
        Some e \<Rightarrow> Some e
      | None \<Rightarrow>
          (case queue_raises q of
             None \<Rightarrow> sleep_outcome cfg q
           | Some e \<Rightarrow> if catches Except_Exception e then sleep_outcome cfg q else Some e))"

text \<open>A pass publishes when it gets to \<^verbatim>\<open>send_message\<close> and no queue call raises.\<close>

definition publishes :: "iter_env \<Rightarrow> bool" where
  "publishes q \<longleftrightarrow> gen_raises q = None \<and> queue_raises q = None"

fun is_summary :: "log_line \<Rightarrow> bool" where
  "is_summary (Disconnected n) = True"
| "is_summary _ = False"

text \<open>The exception with which \<^verbatim>\<open>main\<close> ends, if it ends with one.\<close>

fun propagates :: "result \<Rightarrow> exn option" where
  "propagates (Startup_raised e w) = Some e"
| "propagates (Stopped r n w) = r"
| "propagates _ = None"

text \<open>What no pass of the loop changes: it never disconnects, writes no summary line and
  keeps what the console shows.\<close>

definition pass_keeps :: "world \<Rightarrow> world \<Rightarrow> bool" where
  "pass_keeps w w' \<longleftrightarrow>
     calls_of (\<lambda>c. c = Disconnect) w' = calls_of (\<lambda>c. c = Disconnect) w \<and>
     filter is_summary (console w') = filter is_summary (console w) \<and>
     set (console w) \<subseteq> set (console w')"

definition is_digit :: "nat \<Rightarrow> bool" where
  "is_digit c \<longleftrightarrow> 48 \<le> c \<and> c \<le> 57"

text \<open>The number a string of decimal digits denotes.\<close>

definition decode_digits :: "pystr \<Rightarrow> nat" where
  "decode_digits s = digits_value (map (\<lambda>c. c - 48) s)"

text \<open>The digits that follow the first \<^verbatim>\<open>.\<close> of a text, counted.\<close>

definition decimal_places :: "pystr \<Rightarrow> nat" where
  "decimal_places s = length (takeWhile is_digit (drop 1 (dropWhile (\<lambda>c. c \<noteq> 46) s)))"

section \<open>A sample run\<close>

definition example_src :: gen_src where
  "example_src =
     \<lparr>utcnow = \<lparr>year = 2024, month = 3, day = 9, hour = 7, minute = 5, second = 0,
                microsecond = 1234\<rparr>,
      draw_customer = 5, draw_type = 7, draw_category = 0, draw_amount = 2 ^ 52,
      draw_currency = 2, draw_status = 1, draw_merchant = 9000, draw_payment = 3,
      draw_device = 2, draw_campaign = 899,
      fake_uuid4 = ascii ''6f1c2a34-9b7d-4e21-8a55-0c3d9e7b1f42'',
      fake_name = ascii ''Ann Lee'', fake_email = ascii ''ann@example.org'',
      fake_company = ascii ''Lee & Sons'', fake_city = ascii ''Port Ann'',
      fake_country = ascii ''Chile'',
      fake_latitude = Decimal True 12345678 (- 6), fake_longitude = Decimal False 10 (- 6),
      fake_ipv4 = ascii ''192.0.2.17'', fake_user_agent = ascii ''Mozilla/5.0'',
      fake_uuid4_session = ascii ''0b9e4d1c-77aa-4c0e-9f3b-5d2a6e8c4b10'',
      fake_url = ascii ''https://example.org/''\<rparr>"

definition example_config :: config where
  "example_config =
     \<lparr>mq_host = ascii ''ibm-mq.mq-kafka-integration.svc.cluster.local'',
      mq_port = ascii ''1414'', mq_queue_manager = ascii ''QM1'',
      mq_channel = ascii ''DEV.APP.SVRCONN'', mq_queue = ascii ''KAFKA.IN'',
      mq_user = ascii ''app'', mq_password = ascii ''passw0rd'', message_interval = 5\<rparr>"

definition quiet_pass :: iter_env where
  "quiet_pass =
     \<lparr>gen_raises = None, gen = example_src, open_raises = None, put_raises = None,
      close_raises = None, sleep_raises = None\<rparr>"

definition full_queue_pass :: iter_env where
  "full_queue_pass = quiet_pass\<lparr>put_raises := Some (Exception ''MQRC_Q_FULL'')\<rparr>"

definition interrupted_pass :: iter_env where
  "interrupted_pass = quiet_pass\<lparr>sleep_raises := Some KeyboardInterrupt\<rparr>"

definition refused_env :: env where
  "refused_env =
     \<lparr>connect_raises = Some (Exception ''MQRC_HOST_NOT_AVAILABLE''),
      iterations = [quiet_pass], disconnect_raises = None\<rparr>"

definition scenario_c :: env where
  "scenario_c =
     \<lparr>connect_raises = None, iterations = [full_queue_pass, quiet_pass],
      disconnect_raises = None\<rparr>"

definition scenario_d :: env where
  "scenario_d =
     \<lparr>connect_raises = None, iterations = [full_queue_pass, quiet_pass, interrupted_pass],
      disconnect_raises = None\<rparr>"

section \<open>Readings of a record\<close>

text \<open>A key is present with a value other than \<^verbatim>\<open>None\<close>.\<close>

definition present :: "pyval \<Rightarrow> string \<Rightarrow> bool" where
  "present t k = (case dict_get t (ascii k) of Some v \<Rightarrow> v \<noteq> PNone | None \<Rightarrow> False)"

text \<open>The value under a key is a string, and one of the listed ones.\<close>

definition str_in :: "pyval \<Rightarrow> string \<Rightarrow> string list \<Rightarrow> bool" where
  "str_in t k options =
     (case dict_get t (ascii k) of Some (PStr s) \<Rightarrow> s \<in> set (map ascii options) | _ \<Rightarrow> False)"

text \<open>A text is the given prefix followed by exactly \<open>n\<close> decimal digits.\<close>

definition prefix_digits :: "string \<Rightarrow> nat \<Rightarrow> pystr \<Rightarrow> bool" where
  "prefix_digits pre n s \<longleftrightarrow>
     take (length pre) s = ascii pre \<and> length s = length pre + n \<and>
     list_all is_digit (drop (length pre) s)"

definition str_matches :: "pyval \<Rightarrow> string \<Rightarrow> string \<Rightarrow> nat \<Rightarrow> bool" where
  "str_matches t k pre n =
     (case dict_get t (ascii k) of Some (PStr s) \<Rightarrow> prefix_digits pre n s | _ \<Rightarrow> False)"

text \<open>The nested dict under a key.\<close>

definition sub :: "pyval \<Rightarrow> string \<Rightarrow> pyval" where
  "sub t k = (case dict_get t (ascii k) of Some d \<Rightarrow> d | None \<Rightarrow> PNone)"

section \<open>Decoding: \<^verbatim>\<open>bytes.decode('utf-8')\<close> and \<^verbatim>\<open>json.loads\<close>\<close>

text \<open>
  The program only encodes. The decoder below is the one of the standard library that
  reads such a payload back, written from its documented behaviour: strict UTF-8, then the
  JSON scanner with its default settings. \<open>None\<close> is \<^verbatim>\<open>UnicodeDecodeError\<close> or
  \<^verbatim>\<open>JSONDecodeError\<close>.
\<close>

definition cont_byte :: "byte \<Rightarrow> bool" where
  "cont_byte b \<longleftrightarrow> 128 \<le> unat b \<and> unat b \<le> 191"

fun utf8_decode :: "byte list \<Rightarrow> pystr option" where
  "utf8_decode [] = Some []"
| "utf8_decode (b # bs) =
     (if unat b < 128 then map_option ((#) (unat b)) (utf8_decode bs)
      else if 194 \<le> unat b \<and> unat b \<le> 223 then
        (case bs of
           b1 # r \<Rightarrow>
             if cont_byte b1
             then map_option ((#) ((unat b - 192) * 64 + (unat b1 - 128))) (utf8_decode r)
             else None
         | _ \<Rightarrow> None)
      else if 224 \<le> unat b \<and> unat b \<le> 239 then
        (case bs of
           b1 # b2 # r \<Rightarrow>
             if cont_byte b1 \<and> cont_byte b2
                \<and> (unat b = 224 \<longrightarrow> 160 \<le> unat b1) \<and> (unat b = 237 \<longrightarrow> unat b1 \<le> 159)
             then map_option ((#) ((unat b - 224) * 4096 + (unat b1 - 128) * 64 + (unat b2 - 128)))
                    (utf8_decode r)
             else None
         | _ \<Rightarrow> None)
      else if 240 \<le> unat b \<and> unat b \<le> 244 then
        (case bs of
           b1 # b2 # b3 # r \<Rightarrow>
             if cont_byte b1 \<and> cont_byte b2 \<and> cont_byte b3
                \<and> (unat b = 240 \<longrightarrow> 144 \<le> unat b1) \<and> (unat b = 244 \<longrightarrow> unat b1 \<le> 143)
             then map_option ((#) ((unat b - 240) * 262144 + (unat b1 - 128) * 4096
                                     + (unat b2 - 128) * 64 + (unat b3 - 128)))
                    (utf8_decode r)
             else None
         | _ \<Rightarrow> None)
      else None)"

definition is_ws :: "nat \<Rightarrow> bool" where
  "is_ws c \<longleftrightarrow> c = 32 \<or> c = 9 \<or> c = 10 \<or> c = 13"

definition skip_ws :: "pystr \<Rightarrow> pystr" where
  "skip_ws s = dropWhile is_ws s"

definition hex_val :: "nat \<Rightarrow> nat option" where
  "hex_val c =
     (if 48 \<le> c \<and> c \<le> 57 then Some (c - 48)
      else if 97 \<le> c \<and> c \<le> 102 then Some (c - 87)
      else if 65 \<le> c \<and> c \<le> 70 then Some (c - 55)
      else None)"

definition hex4_val :: "nat \<Rightarrow> nat \<Rightarrow> nat \<Rightarrow> nat \<Rightarrow> nat option" where
  "hex4_val a b c d =
     (case (hex_val a, hex_val b, hex_val c, hex_val d) of
        (Some x, Some y, Some z, Some w) \<Rightarrow> Some (((x * 16 + y) * 16 + z) * 16 + w)
      | _ \<Rightarrow> None)"

text \<open>The one-letter escapes after a backslash.\<close>

definition unescape :: "nat \<Rightarrow> nat option" where
  "unescape e =
     (if e = 34 then Some 34
      else if e = 92 then Some 92
      else if e = 47 then Some 47
      else if e = 98 then Some 8
      else if e = 102 then Some 12
      else if e = 110 then Some 10
      else if e = 114 then Some 13
      else if e = 116 then Some 9
      else None)"

text \<open>
  The string scanner, started behind the opening quote: the decoded string and the text
  behind the closing quote. A \<^verbatim>\<open>\u\<close> escape of a high surrogate that is followed by one of
  a low surrogate gives one code point. A raw control character is an error.
\<close>

fun scanstring :: "pystr \<Rightarrow> (pystr \<times> pystr) option" where
  "scanstring [] = None"
| "scanstring (c # s) =
     (if c = 34 then Some ([], s)
      else if c = 92 then
        (case s of
           [] \<Rightarrow> None
         | e # s1 \<Rightarrow>
             if e = 117 then
               (case s1 of
                  x1 # x2 # x3 # x4 # s2 \<Rightarrow>
                    (case hex4_val x1 x2 x3 x4 of
                       None \<Rightarrow> None
                     | Some u \<Rightarrow>
                         if 55296 \<le> u \<and> u \<le> 56319 then
                           (case s2 of
                              b # v # s3 \<Rightarrow>
                                if b = 92 \<and> v = 117 then
                                  (case s3 of
                                     y1 # y2 # y3 # y4 # s4 \<Rightarrow>
                                       (case hex4_val y1 y2 y3 y4 of
                                          None \<Rightarrow> None
                                        | Some u2 \<Rightarrow>
                                            if 56320 \<le> u2 \<and> u2 \<le> 57343 then
                                              map_option
                                                (\<lambda>(t, r). ((65536 + (u - 55296) * 1024 + (u2 - 56320)) # t, r))
                                                (scanstring s4)
                                            else map_option (\<lambda>(t, r). (u # t, r)) (scanstring s2))
                                   | _ \<Rightarrow> None)
                                else map_option (\<lambda>(t, r). (u # t, r)) (scanstring s2)
                            | _ \<Rightarrow> map_option (\<lambda>(t, r). (u # t, r)) (scanstring s2))
                         else map_option (\<lambda>(t, r). (u # t, r)) (scanstring s2))
                | _ \<Rightarrow> None)
             else
               (case unescape e of
                  None \<Rightarrow> None
                | Some ch \<Rightarrow> map_option (\<lambda>(t, r). (ch # t, r)) (scanstring s1)))
      else if c < 32 then None
      else map_option (\<lambda>(t, r). (c # t, r)) (scanstring s))"

text \<open>
  \<^verbatim>\<open>float(text)\<close> for the text of a JSON number with a fraction or an exponent, in the
  representation of floats used here: the digits without leading and trailing zeros and
  the position of the point. Exact where the text has at most 15 significant digits.
\<close>

definition float_of_text :: "bool \<Rightarrow> pystr \<Rightarrow> pystr \<Rightarrow> int \<Rightarrow> pyfloat" where
  "float_of_text neg ip fp e =
     (let ds = map (\<lambda>c. c - 48) (ip @ fp);
          lead = length (takeWhile (\<lambda>d. d = 0) ds);
          ds1 = strip_zeros ds
      in if ds1 = [] then PyFloat neg [0] 1
         else PyFloat neg (strip_trailing_zeros ds1) (int (length ip) + e - int lead))"

text \<open>
  The number scanner: an optional minus, an integer part that is \<^verbatim>\<open>0\<close> or starts with a
  non-zero digit, an optional fraction (a point and at least one digit) and an optional
  exponent. With neither fraction nor exponent the result is an \<^verbatim>\<open>int\<close>.
\<close>

definition scan_exponent :: "pystr \<Rightarrow> int option \<times> pystr" where
  "scan_exponent s =
     (case s of
        [] \<Rightarrow> (None, s)
      | c # r \<Rightarrow>
          if c = 101 \<or> c = 69 then
            (let (sg, r1) = (case r of
                               [] \<Rightarrow> (1, r)
                             | d # r' \<Rightarrow> if d = 43 then (1, r') else if d = 45 then (- 1, r') else (1, r));
                 ds = takeWhile is_digit r1
             in if ds = [] then (None, s)
                else (Some (sg * int (decode_digits ds)), dropWhile is_digit r1))
          else (None, s))"

definition scan_sign :: "pystr \<Rightarrow> bool \<times> pystr" where
  "scan_sign s = (case s of [] \<Rightarrow> (False, s) | c # r \<Rightarrow> if c = 45 then (True, r) else (False, s))"

definition scan_int :: "pystr \<Rightarrow> pystr \<times> pystr" where
  "scan_int s =
     (case s of
        [] \<Rightarrow> ([], s)
      | c # r \<Rightarrow>
          if c = 48 then ([48], r)
          else if 49 \<le> c \<and> c \<le> 57 then (takeWhile is_digit s, dropWhile is_digit s)
          else ([], s))"

definition scan_frac :: "pystr \<Rightarrow> pystr \<times> pystr" where
  "scan_frac s =
     (case s of
        [] \<Rightarrow> ([], s)
      | c # r \<Rightarrow>
          if c = 46 \<and> takeWhile is_digit r \<noteq> []
          then (takeWhile is_digit r, dropWhile is_digit r)
          else ([], s))"

definition scan_number :: "pystr \<Rightarrow> (pyval \<times> pystr) option" where
  "scan_number s =
     (let (neg, s1) = scan_sign s;
          (ip, s2) = scan_int s1
      in if ip = [] then None
         else
           let (fp, s3) = scan_frac s2;
               (ex, s4) = scan_exponent s3
           in if fp = [] \<and> ex = None
              then Some (PInt ((if neg then - 1 else 1) * int (decode_digits ip)), s4)
              else Some (PFloat (float_of_text neg ip fp (case ex of None \<Rightarrow> 0 | Some e \<Rightarrow> e)), s4))"

text \<open>\<^verbatim>\<open>dict(pairs)\<close>: a repeated key keeps its first place and takes the last value.\<close>

fun dict_set :: "(pystr \<times> pyval) list \<Rightarrow> pystr \<Rightarrow> pyval \<Rightarrow> (pystr \<times> pyval) list" where
  "dict_set [] k v = [(k, v)]"
| "dict_set (kv # kvs) k v = (if fst kv = k then (k, v) # kvs else kv # dict_set kvs k v)"

definition py_dict :: "(pystr \<times> pyval) list \<Rightarrow> (pystr \<times> pyval) list" where
  "py_dict pairs = foldl (\<lambda>d kv. dict_set d (fst kv) (snd kv)) [] pairs"

text \<open>
  The scanner for values, arrays and objects. Every call spends one unit of \<open>fuel\<close>;
  \<^verbatim>\<open>json_loads\<close> supplies more than the length of the text. The literals \<^verbatim>\<open>NaN\<close> and
  \<^verbatim>\<open>Infinity\<close>, which stand for floats that are not finite, are not read.
\<close>

fun parse_value :: "nat \<Rightarrow> pystr \<Rightarrow> (pyval \<times> pystr) option"
  and parse_elems :: "nat \<Rightarrow> pystr \<Rightarrow> (pyval list \<times> pystr) option"
  and parse_pairs :: "nat \<Rightarrow> pystr \<Rightarrow> ((pystr \<times> pyval) list \<times> pystr) option" where
  "parse_value 0 s = None"
| "parse_value (Suc fuel) s =
     (case s of
        [] \<Rightarrow> None
      | c # r \<Rightarrow>
          if c = 34 then map_option (\<lambda>(t, r'). (PStr t, r')) (scanstring r)
          else if c = 123 then
            (case skip_ws r of
               [] \<Rightarrow> None
             | d # r' \<Rightarrow>
                 if d = 125 then Some (PDict [], r')
                 else map_option (\<lambda>(kvs, r''). (PDict (py_dict kvs), r'')) (parse_pairs fuel (d # r')))
          else if c = 91 then
            (case skip_ws r of
               [] \<Rightarrow> None
             | d # r' \<Rightarrow>
                 if d = 93 then Some (PList [], r')
                 else map_option (\<lambda>(vs, r''). (PList vs, r'')) (parse_elems fuel (d # r')))
          else if take 4 s = ascii ''null'' then Some (PNone, drop 4 s)
          else if take 4 s = ascii ''true'' then Some (PBool True, drop 4 s)
          else if take 5 s = ascii ''false'' then Some (PBool False, drop 5 s)
          else scan_number s)"
| "parse_elems 0 s = None"
| "parse_elems (Suc fuel) s =
     (case parse_value fuel s of
        None \<Rightarrow> None
      | Some (v, s1) \<Rightarrow>
          (case skip_ws s1 of
             [] \<Rightarrow> None
           | d # r \<Rightarrow>
               if d = 93 then Some ([v], r)
               else if d = 44 then map_option (\<lambda>(vs, r'). (v # vs, r')) (parse_elems fuel (skip_ws r))
               else None))"
| "parse_pairs 0 s = None"
| "parse_pairs (Suc fuel) s =
     (case s of
        [] \<Rightarrow> None
      | q # s0 \<Rightarrow>
          if q \<noteq> 34 then None
          else
            (case scanstring s0 of
               None \<Rightarrow> None
             | Some (key, s1) \<Rightarrow>
                 (case skip_ws s1 of
                    [] \<Rightarrow> None
                  | c # s2 \<Rightarrow>
                      if c \<noteq> 58 then None
                      else
                        (case parse_value fuel (skip_ws s2) of
                           None \<Rightarrow> None
                         | Some (v, s3) \<Rightarrow>
                             (case skip_ws s3 of
                                [] \<Rightarrow> None
                              | d # r \<Rightarrow>
                                  if d = 125 then Some ([(key, v)], r)
                                  else if d = 44 then
                                    map_option (\<lambda>(kvs, r'). ((key, v) # kvs, r'))
                                      (parse_pairs fuel (skip_ws r))
                                  else None)))))"

definition json_loads :: "pystr \<Rightarrow> pyval option" where
  "json_loads s =
     (case parse_value (Suc (length s)) (skip_ws s) of
        None \<Rightarrow> None
      | Some (v, rest) \<Rightarrow> if skip_ws rest = [] then Some v else None)"

text \<open>What a consumer does with a message body.\<close>

definition decode_payload :: "byte list \<Rightarrow> pyval option" where
  "decode_payload payload =
     (case utf8_decode payload of None \<Rightarrow> None | Some text \<Rightarrow> json_loads text)"

section \<open>Values that the text determines\<close>

text \<open>
  A code point of well-formed Unicode text: in range and no surrogate. The strings that
  Faker returns are of this kind.
\<close>

definition scalar_value :: "nat \<Rightarrow> bool" where
  "scalar_value c \<longleftrightarrow> c < 1114112 \<and> (c < 55296 \<or> 57343 < c)"

definition valid_str :: "pystr \<Rightarrow> bool" where
  "valid_str s = list_all scalar_value s"

text \<open>The triples that stand for a float: decimal digits, no leading or trailing zero.\<close>

definition valid_float :: "pyfloat \<Rightarrow> bool" where
  "valid_float f \<longleftrightarrow>
     fdigits f \<noteq> [] \<and> list_all (\<lambda>d. d < 10) (fdigits f) \<and>
     (fdigits f = [0] \<and> fpoint f = 1 \<or> hd (fdigits f) \<noteq> 0 \<and> last (fdigits f) \<noteq> 0)"

fun json_exact :: "pyval \<Rightarrow> bool" where
  "json_exact (PFloat f) = valid_float f"
| "json_exact (PStr s) = valid_str s"
| "json_exact (PList vs) = list_all json_exact vs"
| "json_exact (PDict kvs) =
     (distinct (map fst kvs) \<and> list_all (\<lambda>kv. valid_str (fst kv) \<and> json_exact (snd kv)) kvs)"
| "json_exact _ = True"

definition valid_src :: "gen_src \<Rightarrow> bool" where
  "valid_src g \<longleftrightarrow>
     list_all valid_str
       [fake_uuid4 g, fake_name g, fake_email g, fake_company g, fake_city g, fake_country g,
        fake_ipv4 g, fake_user_agent g, fake_uuid4_session g, fake_url g]"

text \<open>Text behind a number that does not continue it.\<close>

definition stops :: "pystr \<Rightarrow> bool" where
  "stops rest = (case rest of [] \<Rightarrow> True | c # r \<Rightarrow> c = 44 \<or> c = 10 \<or> c = 32 \<or> c = 93 \<or> c = 125)"

text \<open>Text behind a run of digits that does not continue it.\<close>

definition ends_digits :: "pystr \<Rightarrow> bool" where
  "ends_digits t = (case t of [] \<Rightarrow> True | c # r \<Rightarrow> \<not> is_digit c)"

text \<open>What a serialised value starts with: no white space and no closing bracket.\<close>

definition value_start :: "nat \<Rightarrow> bool" where
  "value_start c \<longleftrightarrow> \<not> is_ws c \<and> c \<noteq> 93 \<and> c \<noteq> 125"

fun is_put :: "op \<times> exn option \<Rightarrow> bool" where
  "is_put (Queue_put p, r) = True"
| "is_put _ = False"

section \<open>The serialised text is ASCII\<close>

lemma is_ascii_simps [simp]:
  "is_ascii []" "is_ascii (c # s) \<longleftrightarrow> c < 128 \<and> is_ascii s"
  "is_ascii (s @ t) \<longleftrightarrow> is_ascii s \<and> is_ascii t"
  by (simp_all add: is_ascii_def)

lemma is_ascii_replicate [simp]: "is_ascii (replicate n c) \<longleftrightarrow> n = 0 \<or> c < 128"
  by (induction n) auto

lemma dec_digits_lt_10: "list_all (\<lambda>d. d < 10) (dec_digits n)"
proof (induction n rule: dec_digits.induct)
  case (1 n)
  show ?case
  proof (cases "n < 10")
    case True
    then show ?thesis by (simp add: dec_digits.simps [of n])
  next
    case False
    with 1 show ?thesis by (simp add: dec_digits.simps [of n])
  qed
qed

lemma is_ascii_digits: "list_all (\<lambda>d. d < 10) ds \<Longrightarrow> is_ascii (map digit_char ds)"
  by (induction ds) (auto simp: digit_char_def)

lemma is_ascii_str_nat [simp]: "is_ascii (str_nat n)"
  by (simp add: str_nat_def is_ascii_digits dec_digits_lt_10)

lemma is_ascii_str_int [simp]: "is_ascii (str_int i)"
  by (simp add: str_int_def)

lemma is_ascii_zero_pad [simp]: "is_ascii (zero_pad w n)"
  by (simp add: zero_pad_def)

lemma is_ascii_take_drop: "is_ascii s \<Longrightarrow> is_ascii (take n s) \<and> is_ascii (drop n s)"
  unfolding is_ascii_def list_all_iff by (auto dest: in_set_takeD in_set_dropD)

lemma is_ascii_float_repr: "list_all (\<lambda>d. d < 10) (fdigits f) \<Longrightarrow> is_ascii (float_repr f)"
  using is_ascii_take_drop [OF is_ascii_digits, of "fdigits f"]
  by (simp add: float_repr_def Let_def ascii_def is_ascii_digits)

lemma hex_char_mod_ascii: "hex_char (n mod 16) < 128"
proof -
  have "n mod 16 < 16" by simp
  then show ?thesis unfolding hex_char_def by presburger
qed

lemma is_ascii_hex4 [simp]: "is_ascii (hex4 n)"
  by (simp add: hex4_def hex_char_mod_ascii)

lemma is_ascii_escape_char [simp]: "is_ascii (escape_char c)"
  by (simp add: escape_char_def)

lemma is_ascii_concat_escape: "is_ascii (concat (map escape_char s))"
  by (induction s) auto

lemma is_ascii_json_str [simp]: "is_ascii (json_str s)"
  by (simp add: json_str_def is_ascii_concat_escape)

lemma is_ascii_newline_indent [simp]: "is_ascii (newline_indent n)"
  by (simp add: newline_indent_def)

lemma is_ascii_dumps:
  "decimal_floats v \<Longrightarrow> is_ascii (dumps n v)"
  "list_all decimal_floats vs \<Longrightarrow> is_ascii (dumps_elems n vs)"
  "list_all (\<lambda>kv. decimal_floats (snd kv)) kvs \<Longrightarrow> is_ascii (dumps_items n kvs)"
  by (induction n v and n vs and n kvs rule: dumps_dumps_elems_dumps_items.induct)
     (auto simp: ascii_def is_ascii_float_repr)

lemma utf8_encode_ascii: "is_ascii s \<Longrightarrow> utf8_encode s = Some (map of_nat s)"
  by (induction s) (auto simp: utf8_encode_char_def)

section \<open>Facts about generated records that the loop relies on\<close>

lemma ascii_eq_iff [simp]: "ascii s = ascii t \<longleftrightarrow> s = t"
  by (simp add: ascii_def inj_on_def)

lemma strip_zeros_subset: "set (strip_zeros ds) \<subseteq> set ds"
  by (induction ds) auto

lemma strip_trailing_zeros_lt_10:
  "list_all (\<lambda>d. d < 10) ds \<Longrightarrow> list_all (\<lambda>d. d < 10) (strip_trailing_zeros ds)"
  using strip_zeros_subset [of "rev ds"]
  by (auto simp: strip_trailing_zeros_def list_all_iff)

lemma float_of_decimal_digits: "list_all (\<lambda>d. d < 10) (fdigits (float_of_decimal d))"
  by (simp add: float_of_decimal_def strip_trailing_zeros_lt_10 dec_digits_lt_10)

lemma decimal_floats_generated: "decimal_floats (generate_transaction g)"
  by (simp add: generate_transaction_def py_round_def Let_def float_of_decimal_digits)

lemma encode_generated:
  "utf8_encode (json_dumps (generate_transaction g))
     = Some (map of_nat (json_dumps (generate_transaction g)))"
  by (simp add: utf8_encode_ascii json_dumps_def is_ascii_dumps decimal_floats_generated)

lemma report_sent_generated: "fst (report_sent n (generate_transaction g) w) = None"
  by (simp add: report_sent_def generate_transaction_def)

section \<open>The loop, pass by pass\<close>

lemma history_print [simp]: "history (print l w) = history w"
  by (simp add: print_def)

lemma console_print [simp]: "console (print l w) = console w @ [l]"
  by (simp add: print_def)

lemma history_call [simp]: "history (call c r w) = history w @ [(c, r)]"
  by (simp add: call_def)

lemma console_call [simp]: "console (call c r w) = console w"
  by (simp add: call_def)

lemma published_print [simp]: "published (print l w) = published w"
  by (simp add: published_def)

lemma published_call [simp]:
  "published (call c r w) = published w + (if c = Send_message \<and> r = None then 1 else 0)"
  by (simp add: published_def)

lemma calls_of_print [simp]: "calls_of P (print l w) = calls_of P w"
  by (simp add: calls_of_def)

lemma calls_of_call [simp]: "calls_of P (call c r w) = calls_of P w + (if P c then 1 else 0)"
  by (simp add: calls_of_def)

text \<open>The report after a send writes no summary line and makes no call.\<close>

lemma report_sent_history [simp]: "history (snd (report_sent n t w)) = history w"
  by (simp add: report_sent_def Let_def split: option.split)

lemma report_sent_summary [simp]:
  "filter is_summary (console (snd (report_sent n t w))) = filter is_summary (console w)"
  by (simp add: report_sent_def Let_def split: option.split)

lemma report_sent_console: "set (console w) \<subseteq> set (console (snd (report_sent n t w)))"
  by (auto simp: report_sent_def Let_def split: option.split)

lemma report_sent_generated_ex:
  "\<exists>w'. report_sent n (generate_transaction g) w = (None, w') \<and> history w' = history w
     \<and> filter is_summary (console w') = filter is_summary (console w)
     \<and> set (console w) \<subseteq> set (console w')"
proof -
  obtain r w' where eq: "report_sent n (generate_transaction g) w = (r, w')"
    by (cases "report_sent n (generate_transaction g) w")
  have "r = None" using report_sent_generated [of n g w] eq by simp
  moreover have "history w' = history w"
    using report_sent_history [of n "generate_transaction g" w] eq by simp
  moreover have "filter is_summary (console w') = filter is_summary (console w)"
    using report_sent_summary [of n "generate_transaction g" w] eq by simp
  moreover have "set (console w) \<subseteq> set (console w')"
    using report_sent_console [of w n "generate_transaction g"] eq by simp
  ultimately show ?thesis using eq by simp
qed

text \<open>What \<^verbatim>\<open>send_message\<close> returns and which calls it makes, case by case.\<close>

lemma send_message_open_raises:
  "open_raises q = Some e \<Longrightarrow>
   send_message q name v w = (Inl e, call (Queue_open name) (Some e) w)"
  by (simp add: send_message_def)

lemma send_message_put_raises:
  "open_raises q = None \<Longrightarrow> put_raises q = Some e \<Longrightarrow> decimal_floats v \<Longrightarrow>
   send_message q name v w =
     (Inl e, call (Queue_put (map of_nat (json_dumps v))) (Some e) (call (Queue_open name) None w))"
  by (simp add: send_message_def utf8_encode_ascii json_dumps_def is_ascii_dumps)

lemma send_message_close_raises:
  "open_raises q = None \<Longrightarrow> put_raises q = None \<Longrightarrow> close_raises q = Some e \<Longrightarrow>
   decimal_floats v \<Longrightarrow>
   send_message q name v w =
     (Inl e, call Queue_close (Some e) (call (Queue_put (map of_nat (json_dumps v))) None
        (call (Queue_open name) None w)))"
  by (simp add: send_message_def utf8_encode_ascii json_dumps_def is_ascii_dumps)

lemma send_message_returns:
  "open_raises q = None \<Longrightarrow> put_raises q = None \<Longrightarrow> close_raises q = None \<Longrightarrow>
   decimal_floats v \<Longrightarrow>
   send_message q name v w =
     (Inr (json_dumps v), call Queue_close None (call (Queue_put (map of_nat (json_dumps v))) None
        (call (Queue_open name) None w)))"
  by (simp add: send_message_def utf8_encode_ascii json_dumps_def is_ascii_dumps Let_def)

lemma send_message_result:
  "decimal_floats v \<Longrightarrow>
   fst (send_message q name v w) = (case queue_raises q of Some e \<Rightarrow> Inl e | None \<Rightarrow> Inr (json_dumps v))"
  by (cases "open_raises q"; cases "put_raises q"; cases "close_raises q")
     (simp_all add: queue_raises_def send_message_open_raises send_message_put_raises
        send_message_close_raises send_message_returns)

lemma send_message_console [simp]: "console (snd (send_message q name v w)) = console w"
  by (simp add: send_message_def Let_def split: option.split)

lemma send_message_published [simp]: "published (snd (send_message q name v w)) = published w"
  by (simp add: send_message_def Let_def split: option.split)

lemma send_message_no_disconnect [simp]:
  "calls_of (\<lambda>c. c = Disconnect) (snd (send_message q name v w)) = calls_of (\<lambda>c. c = Disconnect) w"
  by (simp add: send_message_def Let_def split: option.split)

lemma send_message_sends [simp]:
  "filter (\<lambda>c. fst c = Send_message) (history (snd (send_message q name v w)))
     = filter (\<lambda>c. fst c = Send_message) (history w)"
  by (simp add: send_message_def Let_def split: option.split)

lemma time_sleep_eq:
  "time_sleep (message_interval cfg) (sleep_raises q) w
     = (sleep_outcome cfg q, call (Sleep (message_interval cfg)) (sleep_outcome cfg q) w)"
  by (simp add: time_sleep_def sleep_outcome_def Let_def)


text \<open>One pass of the loop body.\<close>

lemma loop_body_gen_raises:
  "gen_raises q = Some e \<Longrightarrow> loop_body cfg q (n, w) = (Some e, n, w)"
  by (simp add: loop_body_def)

lemma loop_body_effect:
  "\<exists>w'. loop_body cfg q (n, w) = (leaves_body cfg q, n + (if publishes q then 1 else 0), w')
     \<and> published w' = published w + (if publishes q then 1 else 0)
     \<and> pass_keeps w w'
     \<and> (\<forall>e. gen_raises q = None \<and> queue_raises q = Some e \<and> catches Except_Exception e
           \<longrightarrow> Send_failed e \<in> set (console w'))
     \<and> filter (\<lambda>c. fst c = Send_message) (history w')
         = filter (\<lambda>c. fst c = Send_message) (history w)
             @ (if gen_raises q = None then [(Send_message, queue_raises q)] else [])"
proof (cases "gen_raises q")
  case (Some e)
  then show ?thesis
    by (simp add: loop_body_gen_raises leaves_body_def publishes_def pass_keeps_def)
next
  case None
  let ?t = "generate_transaction (gen q)"
  obtain r w1 where sm: "send_message q (mq_queue cfg) ?t w = (r, w1)"
    by (cases "send_message q (mq_queue cfg) ?t w")
  have r: "r = (case queue_raises q of Some e \<Rightarrow> Inl e | None \<Rightarrow> Inr (json_dumps ?t))"
    using send_message_result [OF decimal_floats_generated, of q "mq_queue cfg" "gen q" w] sm
    by simp
  have w1: "published w1 = published w" "console w1 = console w"
    "calls_of (\<lambda>c. c = Disconnect) w1 = calls_of (\<lambda>c. c = Disconnect) w"
    "filter (\<lambda>c. fst c = Send_message) (history w1)
       = filter (\<lambda>c. fst c = Send_message) (history w)"
    using send_message_published [of q "mq_queue cfg" ?t w]
      send_message_console [of q "mq_queue cfg" ?t w]
      send_message_no_disconnect [of q "mq_queue cfg" ?t w]
      send_message_sends [of q "mq_queue cfg" ?t w] sm by simp_all
  show ?thesis
  proof (cases "queue_raises q")
    case qn: None
    obtain w3 where rs: "report_sent (Suc n) ?t (call Send_message None w1) = (None, w3)"
      and h3: "history w3 = history (call Send_message None w1)"
      and c3: "filter is_summary (console w3) = filter is_summary (console (call Send_message None w1))"
      and s3: "set (console (call Send_message None w1)) \<subseteq> set (console w3)"
      using report_sent_generated_ex [of "Suc n" "gen q" "call Send_message None w1"] by blast
    from h3 have p3: "published w3 = published w + 1"
      "calls_of (\<lambda>c. c = Disconnect) w3 = calls_of (\<lambda>c. c = Disconnect) w"
      using w1 by (simp_all add: published_def calls_of_def)
    show ?thesis
      using None qn sm r rs p3 c3 s3 w1 h3
      by (simp add: loop_body_def leaves_body_def publishes_def Let_def time_sleep_eq
            pass_keeps_def)
  next
    case (Some e)
    show ?thesis
      using None Some sm r w1
      by (auto simp: loop_body_def leaves_body_def publishes_def Let_def time_sleep_eq
            pass_keeps_def)
  qed
qed

lemma pass_keeps_refl [simp]: "pass_keeps w w"
  by (simp add: pass_keeps_def)

lemma pass_keeps_trans: "pass_keeps w w' \<Longrightarrow> pass_keeps w' w'' \<Longrightarrow> pass_keeps w w''"
  by (auto simp: pass_keeps_def)

lemma producer_loop_quiet:
  "\<forall>p\<in>set qs. leaves_body cfg p = None \<Longrightarrow>
   \<exists>w'. producer_loop cfg qs (n, w) = (None, n + length (filter publishes qs), w')
     \<and> published w' = published w + length (filter publishes qs)
     \<and> pass_keeps w w'
     \<and> (\<forall>p\<in>set qs. \<forall>e. gen_raises p = None \<and> queue_raises p = Some e
            \<and> catches Except_Exception e \<longrightarrow> Send_failed e \<in> set (console w'))
     \<and> filter (\<lambda>c. fst c = Send_message) (history w')
         = filter (\<lambda>c. fst c = Send_message) (history w)
             @ map (\<lambda>p. (Send_message, queue_raises p)) (filter (\<lambda>p. gen_raises p = None) qs)"
proof (induction qs arbitrary: n w)
  case Nil
  then show ?case by simp
next
  case (Cons q qs)
  obtain w1 where b: "loop_body cfg q (n, w) = (None, n + (if publishes q then 1 else 0), w1)"
    and p1: "published w1 = published w + (if publishes q then 1 else 0)"
    and k1: "pass_keeps w w1"
    and f1: "\<forall>e. gen_raises q = None \<and> queue_raises q = Some e \<and> catches Except_Exception e
           \<longrightarrow> Send_failed e \<in> set (console w1)"
    and h1: "filter (\<lambda>c. fst c = Send_message) (history w1)
         = filter (\<lambda>c. fst c = Send_message) (history w)
             @ (if gen_raises q = None then [(Send_message, queue_raises q)] else [])"
    using loop_body_effect [of cfg q n w] Cons.prems by auto
  obtain w' where l: "producer_loop cfg qs (n + (if publishes q then 1 else 0), w1)
        = (None, n + (if publishes q then 1 else 0) + length (filter publishes qs), w')"
    and p': "published w' = published w1 + length (filter publishes qs)"
    and k': "pass_keeps w1 w'"
    and f': "\<forall>p\<in>set qs. \<forall>e. gen_raises p = None \<and> queue_raises p = Some e
            \<and> catches Except_Exception e \<longrightarrow> Send_failed e \<in> set (console w')"
    and h': "filter (\<lambda>c. fst c = Send_message) (history w')
         = filter (\<lambda>c. fst c = Send_message) (history w1)
             @ map (\<lambda>p. (Send_message, queue_raises p)) (filter (\<lambda>p. gen_raises p = None) qs)"
    using Cons.IH [of "n + (if publishes q then 1 else 0)" w1] Cons.prems by auto
  have sub: "set (console w1) \<subseteq> set (console w')"
    using k' by (simp add: pass_keeps_def)
  have "producer_loop cfg (q # qs) (n, w) = (None, n + length (filter publishes (q # qs)), w')"
    using b l by simp
  moreover have "published w' = published w + length (filter publishes (q # qs))"
    using p1 p' by simp
  moreover have "pass_keeps w w'"
    using k1 k' by (rule pass_keeps_trans)
  moreover have "\<forall>p\<in>set (q # qs). \<forall>e. gen_raises p = None \<and> queue_raises p = Some e
            \<and> catches Except_Exception e \<longrightarrow> Send_failed e \<in> set (console w')"
    using f1 f' sub by auto
  moreover have "filter (\<lambda>c. fst c = Send_message) (history w')
         = filter (\<lambda>c. fst c = Send_message) (history w)
             @ map (\<lambda>p. (Send_message, queue_raises p))
                 (filter (\<lambda>p. gen_raises p = None) (q # qs))"
    using h1 h' by simp
  ultimately show ?case by blast
qed

lemma producer_loop_append:
  "producer_loop cfg (pre @ post) s =
     (case producer_loop cfg pre s of
        (None, s') \<Rightarrow> producer_loop cfg post s'
      | (Some e, s') \<Rightarrow> (Some e, s'))"
  by (induction pre arbitrary: s) (auto split: prod.split option.split)

lemma producer_loop_stops:
  assumes quiet: "\<forall>p\<in>set pre. leaves_body cfg p = None"
    and stop: "leaves_body cfg q = Some e"
  shows "\<exists>w'. producer_loop cfg (pre @ q # post) (n, w)
            = (Some e, n + length (filter publishes (pre @ [q])), w')
     \<and> published w' = published w + length (filter publishes (pre @ [q]))
     \<and> pass_keeps w w'"
proof -
  obtain w1 where l: "producer_loop cfg pre (n, w) = (None, n + length (filter publishes pre), w1)"
    and p1: "published w1 = published w + length (filter publishes pre)"
    and k1: "pass_keeps w w1"
    using producer_loop_quiet [OF quiet, of n w] by blast
  obtain w' where b: "loop_body cfg q (n + length (filter publishes pre), w1)
        = (Some e, n + length (filter publishes pre) + (if publishes q then 1 else 0), w')"
    and p': "published w' = published w1 + (if publishes q then 1 else 0)"
    and k': "pass_keeps w1 w'"
    using loop_body_effect [of cfg q "n + length (filter publishes pre)" w1] stop by auto
  have "producer_loop cfg (pre @ q # post) (n, w)
          = (Some e, n + length (filter publishes (pre @ [q])), w')"
    using l b by (simp add: producer_loop_append)
  moreover have "published w' = published w + length (filter publishes (pre @ [q]))"
    using p1 p' by simp
  moreover have "pass_keeps w w'"
    using k1 k' by (rule pass_keeps_trans)
  ultimately show ?thesis by blast
qed

text \<open>Whatever the surroundings do, the counter moves with the successful sends.\<close>

lemma producer_loop_invariant:
  "\<exists>r n' w'. producer_loop cfg qs (n, w) = (r, n', w')
     \<and> n' + published w = n + published w' \<and> pass_keeps w w'"
proof (induction qs arbitrary: n w)
  case Nil
  then show ?case by simp
next
  case (Cons q qs)
  obtain w1 where b: "loop_body cfg q (n, w)
        = (leaves_body cfg q, n + (if publishes q then 1 else 0), w1)"
    and p1: "published w1 = published w + (if publishes q then 1 else 0)"
    and k1: "pass_keeps w w1"
    using loop_body_effect [of cfg q n w] by blast
  show ?case
  proof (cases "leaves_body cfg q")
    case None
    obtain r n' w' where l: "producer_loop cfg qs (n + (if publishes q then 1 else 0), w1) = (r, n', w')"
      and i: "n' + published w1 = n + (if publishes q then 1 else 0) + published w'"
      and k': "pass_keeps w1 w'"
      using Cons.IH [of "n + (if publishes q then 1 else 0)" w1] by blast
    have "producer_loop cfg (q # qs) (n, w) = (r, n', w')"
      using b None l by simp
    moreover have "n' + published w = n + published w'"
      using i p1 by simp
    moreover have "pass_keeps w w'"
      using k1 k' by (rule pass_keeps_trans)
    ultimately show ?thesis by blast
  next
    case (Some e)
    have "producer_loop cfg (q # qs) (n, w) = (Some e, n + (if publishes q then 1 else 0), w1)"
      using b Some by simp
    then show ?thesis using p1 k1 by auto
  qed
qed

text \<open>The start of \<^verbatim>\<open>main\<close>, up to the loop.\<close>

lemma connect_to_mq_raises:
  "connect_to_mq cfg (Some e) w =
     (Some e, call (Connect (mq_queue_manager cfg) (mq_channel cfg)
                      (mq_host cfg @ ascii ''('' @ mq_port cfg @ ascii '')'')
                      (mq_user cfg) (mq_password cfg)) (Some e)
        (print (Queue_manager_channel (mq_queue_manager cfg) (mq_channel cfg))
          (print (Connecting (mq_host cfg) (mq_port cfg)) w)))"
  by (simp add: connect_to_mq_def Let_def)

lemma connect_to_mq_returns:
  "\<exists>w'. connect_to_mq cfg None (banner cfg \<lparr>console = [], history = []\<rparr>) = (None, w')
     \<and> published w' = 0 \<and> calls_of (\<lambda>c. c = Disconnect) w' = 0
     \<and> filter is_summary (console w') = []"
  by (simp add: connect_to_mq_def Let_def banner_def published_def calls_of_def)

lemma history_banner [simp]: "history (banner cfg w) = history w"
  by (simp add: banner_def)

lemma summary_banner [simp]: "filter is_summary (console (banner cfg w)) = filter is_summary (console w)"
  by (simp add: banner_def)

section \<open>Digits, draws and fields\<close>

lemma choice_in_set: "xs \<noteq> [] \<Longrightarrow> choice xs n \<in> set xs"
  by (simp add: choice_def)

lemma randint_bounds: "a \<le> b \<Longrightarrow> a \<le> randint a b n \<and> randint a b n \<le> b"
proof -
  assume ab: "a \<le> b"
  then have pos: "0 < nat (b - a + 1)" by simp
  have "n mod nat (b - a + 1) < nat (b - a + 1)"
    using pos by (rule mod_less_divisor)
  then have "int (n mod nat (b - a + 1)) < b - a + 1"
    using ab by linarith
  then show ?thesis by (simp add: randint_def)
qed

lemma dec_digits_length:
  "10 ^ k \<le> n \<Longrightarrow> n < 10 ^ Suc k \<Longrightarrow> length (dec_digits n) = Suc k"
proof (induction k arbitrary: n)
  case 0
  then show ?case by (simp add: dec_digits.simps [of n])
next
  case (Suc k)
  from Suc.prems have ge: "10 \<le> n"
    by (metis (no_types) le_trans one_le_numeral one_le_power power_Suc mult.right_neutral mult_le_mono2)
  have lo: "10 ^ k \<le> n div 10"
    using Suc.prems(1) by (simp add: less_eq_div_iff_mult_less_eq mult.commute)
  have hi: "n div 10 < 10 ^ Suc k"
    using Suc.prems(2) by (simp add: div_less_iff_less_mult mult.commute)
  from Suc.IH [OF lo hi] ge show ?case
    by (simp add: dec_digits.simps [of n])
qed

lemma dec_digits_length_le:
  "n < 10 ^ k \<Longrightarrow> 0 < k \<Longrightarrow> length (dec_digits n) \<le> k"
proof (induction k arbitrary: n)
  case 0
  then show ?case by simp
next
  case (Suc k)
  show ?case
  proof (cases "n < 10")
    case True
    then show ?thesis by (simp add: dec_digits.simps [of n])
  next
    case False
    then have k: "0 < k" using Suc.prems(1) by (cases k) auto
    have hi: "n div 10 < 10 ^ k"
      using Suc.prems(1) by (simp add: div_less_iff_less_mult mult.commute)
    from Suc.IH [OF hi k] False show ?thesis
      by (simp add: dec_digits.simps [of n])
  qed
qed

lemma is_digit_digit_char: "d < 10 \<Longrightarrow> is_digit (digit_char d)"
  by (simp add: is_digit_def digit_char_def)

lemma str_nat_digits: "list_all is_digit (str_nat n)"
  using dec_digits_lt_10 [of n]
  by (simp add: str_nat_def list_all_iff is_digit_digit_char)

lemma str_int_randint:
  assumes "a = 10 ^ k" and "b = 10 ^ Suc k - 1"
  shows "length (str_int (randint a b n)) = Suc k \<and> list_all is_digit (str_int (randint a b n))"
proof -
  have ab: "a \<le> b" using assms by simp
  from randint_bounds [OF ab, of n] have lo: "a \<le> randint a b n" and hi: "randint a b n \<le> b"
    by simp_all
  have "(0::int) \<le> 10 ^ k" by simp
  then have nn: "0 \<le> randint a b n" using lo assms(1) by linarith
  have l: "10 ^ k \<le> nat (randint a b n)"
    using lo assms(1) by (simp add: le_nat_iff)
  have h: "nat (randint a b n) < 10 ^ Suc k"
    using hi assms(2) nn by (simp add: nat_less_iff)
  from dec_digits_length [OF l h] nn show ?thesis
    by (simp add: str_int_def str_nat_def str_nat_digits [unfolded str_nat_def])
qed


lemma digits_value_append:
  "digits_value (xs @ ys) = digits_value xs * 10 ^ length ys + digits_value ys"
  by (induction xs) (simp_all add: power_add algebra_simps)

lemma digits_value_dec_digits: "digits_value (dec_digits n) = n"
proof (induction n rule: dec_digits.induct)
  case (1 n)
  show ?case
  proof (cases "n < 10")
    case True
    then show ?thesis by (simp add: dec_digits.simps [of n])
  next
    case False
    with 1 show ?thesis
      by (simp add: dec_digits.simps [of n] digits_value_append)
  qed
qed

lemma digits_value_replicate_0: "digits_value (replicate k 0 @ ds) = digits_value ds"
  by (induction k) simp_all

lemma decode_digits_zero_pad: "decode_digits (zero_pad w n) = n"
proof -
  have "map (\<lambda>c. c - 48) (zero_pad w n) = replicate (w - length (dec_digits n)) 0 @ dec_digits n"
    by (simp add: zero_pad_def str_nat_def digit_char_def comp_def)
  then show ?thesis
    by (simp add: decode_digits_def digits_value_replicate_0 digits_value_dec_digits)
qed

lemma length_zero_pad: "n < 10 ^ w \<Longrightarrow> 0 < w \<Longrightarrow> length (zero_pad w n) = w"
  using dec_digits_length_le [of n w] by (simp add: zero_pad_def str_nat_def)

lemma zero_pad_digits: "list_all is_digit (zero_pad w n)"
  using str_nat_digits [of n] by (auto simp: zero_pad_def is_digit_def list_all_iff)


lemma dict_get_Cons [simp]:
  "dict_get (PDict ((k, v) # kvs)) k' = (if k = k' then Some v else dict_get (PDict kvs) k')"
  by auto

lemma prefix_digitsI:
  "length ds = n \<Longrightarrow> list_all is_digit ds \<Longrightarrow> prefix_digits pre n (ascii pre @ ds)"
  by (simp add: prefix_digits_def ascii_def)


section \<open>Rounding and the digits of a float\<close>

lemma random_unit_range: "0 \<le> random_unit n \<and> random_unit n < 1"
proof -
  have "n mod 2 ^ 53 < (2 ^ 53 :: nat)" by simp
  then have "(of_nat (n mod 2 ^ 53) :: rat) < of_nat (2 ^ 53)"
    by (simp only: of_nat_less_iff)
  then show ?thesis by (simp add: random_unit_def)
qed

lemma uniform_range: "a \<le> b \<Longrightarrow> a \<le> uniform a b n \<and> uniform a b n \<le> b"
proof -
  assume ab: "a \<le> b"
  have r: "0 \<le> random_unit n" "random_unit n \<le> 1"
    using random_unit_range [of n] by simp_all
  have "0 \<le> (b - a) * random_unit n"
    using ab r(1) by simp
  moreover have "(b - a) * random_unit n \<le> (b - a) * 1"
    using ab r(2) by (intro mult_left_mono) simp_all
  ultimately show ?thesis by (simp add: uniform_def)
qed

lemma round_half_even_bounds:
  "of_int a \<le> x \<Longrightarrow> x \<le> of_int b \<Longrightarrow> a \<le> round_half_even x \<and> round_half_even x \<le> b"
proof -
  assume lo: "of_int a \<le> x" and hi: "x \<le> of_int b"
  have fl: "a \<le> \<lfloor>x\<rfloor>" using lo by (simp add: le_floor_iff)
  show ?thesis
  proof (cases "x = of_int b")
    case True
    then show ?thesis using fl by (simp add: round_half_even_def)
  next
    case False
    with hi have "x < of_int b" by simp
    then have "\<lfloor>x\<rfloor> < b" by (simp add: floor_less_iff)
    then show ?thesis using fl by (simp add: round_half_even_def Let_def)
  qed
qed

lemma strip_zeros_dropWhile: "strip_zeros ds = dropWhile (\<lambda>d. d = 0) ds"
  by (induction ds) simp_all

lemma strip_trailing_zeros_split:
  "ds = strip_trailing_zeros ds @ replicate (length ds - length (strip_trailing_zeros ds)) 0"
proof -
  let ?z = "takeWhile (\<lambda>d. d = 0) (rev ds)"
  have "rev ds = ?z @ dropWhile (\<lambda>d. d = 0) (rev ds)" by simp
  then have "ds = rev (dropWhile (\<lambda>d. d = 0) (rev ds)) @ rev ?z"
    by (metis rev_append rev_rev_ident)
  then have split: "ds = strip_trailing_zeros ds @ rev ?z"
    by (simp add: strip_trailing_zeros_def strip_zeros_dropWhile)
  have "\<forall>d\<in>set ?z. d = 0" by (auto dest: set_takeWhileD)
  then have "rev ?z = replicate (length ?z) 0"
    by (metis (mono_tags, lifting) length_rev replicate_length_same set_rev)
  moreover have "length ?z = length ds - length (strip_trailing_zeros ds)"
    using arg_cong [OF split, of length] by simp
  ultimately show ?thesis using split by simp
qed

lemma strip_trailing_zeros_length: "length (strip_trailing_zeros ds) \<le> length ds"
  by (simp add: strip_trailing_zeros_def strip_zeros_dropWhile length_dropWhile_le [of _ "rev ds", simplified])

lemma strip_trailing_zeros_last:
  "strip_trailing_zeros ds \<noteq> [] \<Longrightarrow> last (strip_trailing_zeros ds) \<noteq> 0"
  using hd_dropWhile [of "\<lambda>d. d = 0" "rev ds"]
  by (simp add: strip_trailing_zeros_def strip_zeros_dropWhile last_rev)

lemma strip_trailing_zeros_hd:
  "ds \<noteq> [] \<Longrightarrow> hd ds \<noteq> 0 \<Longrightarrow>
   strip_trailing_zeros ds \<noteq> [] \<and> hd (strip_trailing_zeros ds) = hd ds"
proof -
  assume ne: "ds \<noteq> []" and h: "hd ds \<noteq> 0"
  have l: "last (rev ds) \<noteq> 0" using ne h by (simp add: last_rev)
  have "dropWhile (\<lambda>d. d = 0) (rev ds) \<noteq> []"
    using ne l by (metis (mono_tags, lifting) dropWhile_eq_Nil_conv last_in_set rev_is_Nil_conv)
  then have ne': "strip_trailing_zeros ds \<noteq> []"
    by (simp add: strip_trailing_zeros_def strip_zeros_dropWhile)
  from strip_trailing_zeros_split [of ds] ne' have "hd ds = hd (strip_trailing_zeros ds)"
    by (metis hd_append2)
  with ne' show ?thesis by simp
qed

lemma dec_digits_not_Nil [simp]: "dec_digits n \<noteq> []"
  by (subst dec_digits.simps) simp

lemma dec_digits_hd: "0 < n \<Longrightarrow> hd (dec_digits n) \<noteq> 0"
proof (induction n rule: dec_digits.induct)
  case (1 n)
  show ?case
  proof (cases "n < 10")
    case True
    with 1 show ?thesis by (simp add: dec_digits.simps [of n])
  next
    case False
    then have "0 < n div 10" by (simp add: div_greater_zero_iff)
    with 1 False show ?thesis by (simp add: dec_digits.simps [of n])
  qed
qed

lemma digits_value_zeros [simp]: "digits_value (replicate j 0) = 0"
  by (induction j) simp_all

lemma float_value_of_decimal:
  "float_value (float_of_decimal (Decimal neg c e))
     = (if neg then - 1 else 1) * of_nat c * power_int 10 e"
proof (cases "c = 0")
  case True
  then show ?thesis by (simp add: float_of_decimal_def float_value_def)
next
  case False
  define ds where "ds = dec_digits c"
  define s where "s = strip_trailing_zeros ds"
  define j where "j = length ds - length s"
  have split: "ds = s @ replicate j 0"
    unfolding s_def j_def by (rule strip_trailing_zeros_split)
  have "digits_value ds = digits_value s * 10 ^ j"
    by (subst split) (simp add: digits_value_append)
  then have c: "c = digits_value s * 10 ^ j"
    by (simp add: ds_def digits_value_dec_digits)
  have "length s \<le> length ds"
    unfolding s_def by (rule strip_trailing_zeros_length)
  then have e1: "int (length ds) + e - int (length s) = int j + e"
    unfolding j_def by linarith
  have p: "power_int (10::rat) (int (length ds) + e - int (length s)) = 10 ^ j * power_int 10 e"
    unfolding e1 by (simp add: power_int_add)
  have v: "(of_nat c :: rat) = of_nat (digits_value s) * 10 ^ j"
    unfolding c by simp
  have "float_value (float_of_decimal (Decimal neg c e))
      = (if neg then - 1 else 1) * of_nat (digits_value s) * power_int 10 (int (length ds) + e - int (length s))"
    using False by (simp add: float_of_decimal_def float_value_def ds_def s_def)
  also have "\<dots> = (if neg then - 1 else 1) * of_nat c * power_int 10 e"
    unfolding p v by simp
  finally show ?thesis .
qed

lemma digit_chars_not_point: "list_all (\<lambda>d. d < 10) ds \<Longrightarrow> x \<in> set (map digit_char ds) \<Longrightarrow> x \<noteq> 46 \<and> is_digit x"
  by (auto simp: list_all_iff digit_char_def is_digit_def)

lemma decimal_places_fixed:
  assumes ds: "list_all (\<lambda>d. d < 10) ds" and p: "0 < p" "p \<le> 16"
  shows "decimal_places (float_repr (PyFloat False ds p))
           = (if p < int (length ds) then length ds - nat p else 1)"
proof -
  let ?cs = "map digit_char ds"
  have np: "\<And>x. x \<in> set ?cs \<Longrightarrow> x \<noteq> 46" and dg: "\<And>x. x \<in> set ?cs \<Longrightarrow> is_digit x"
    using digit_chars_not_point [OF ds] by blast+
  show ?thesis
  proof (cases "p < int (length ds)")
    case True
    have r: "float_repr (PyFloat False ds p) = take (nat p) ?cs @ 46 # drop (nat p) ?cs"
      using p True by (simp add: float_repr_def Let_def ascii_def)
    have a: "\<And>x. x \<in> set (take (nat p) ?cs) \<Longrightarrow> x \<noteq> 46"
      using np by (blast dest: in_set_takeD)
    have b: "\<And>x. x \<in> set (drop (nat p) ?cs) \<Longrightarrow> is_digit x"
      using dg by (blast dest: in_set_dropD)
    have dw: "dropWhile (\<lambda>c. c \<noteq> 46) (take (nat p) ?cs @ 46 # drop (nat p) ?cs) = 46 # drop (nat p) ?cs"
      using a by simp
    have tw: "takeWhile is_digit (drop (nat p) ?cs) = drop (nat p) ?cs"
      using b by simp
    show ?thesis
      using True unfolding r decimal_places_def dw by (simp add: tw)
  next
    case False
    let ?z = "replicate (nat (p - int (length ds))) (48::nat)"
    have r: "float_repr (PyFloat False ds p) = (?cs @ ?z) @ [46, 48]"
      using p False by (simp add: float_repr_def Let_def ascii_def)
    have a: "\<And>x. x \<in> set (?cs @ ?z) \<Longrightarrow> x \<noteq> 46"
      using np by auto
    have "dropWhile (\<lambda>c. c \<noteq> 46) ((?cs @ ?z) @ [46, 48])
            = dropWhile (\<lambda>c. c \<noteq> 46) [46, 48]"
      using a by (rule dropWhile_append2)
    then have dw: "dropWhile (\<lambda>c. c \<noteq> 46) ((?cs @ ?z) @ [46, 48]) = [46, 48]"
      by simp
    show ?thesis
      using False unfolding r decimal_places_def dw by (simp add: is_digit_def)
  qed
qed

lemma amount_hundredths:
  "1000 \<le> round_half_even (uniform 10 5000 n * 10 ^ 2)
   \<and> round_half_even (uniform 10 5000 n * 10 ^ 2) \<le> 500000"
proof -
  have u: "10 \<le> uniform 10 5000 n" "uniform 10 5000 n \<le> 5000"
    using uniform_range [of 10 5000 n] by simp_all
  have "of_int 1000 \<le> uniform 10 5000 n * 10 ^ 2" "uniform 10 5000 n * 10 ^ 2 \<le> of_int 500000"
    using u by simp_all
  then show ?thesis by (rule round_half_even_bounds)
qed

lemma dec_digits_length_range:
  assumes "1000 \<le> c" and "c \<le> 500000"
  shows "length (dec_digits c) \<in> {4, 5, 6}"
proof -
  consider "c < 10 ^ 4" | "10 ^ 4 \<le> c" "c < 10 ^ 5" | "10 ^ 5 \<le> c"
    by linarith
  then show ?thesis
  proof cases
    case 1
    then show ?thesis using dec_digits_length [of 3 c] assms by simp
  next
    case 2
    then show ?thesis using dec_digits_length [of 4 c] by simp
  next
    case 3
    then show ?thesis using dec_digits_length [of 5 c] assms by simp
  qed
qed


lemma ts_example: "isoformat (utcnow example_src) = ascii ''2024-03-09T07:05:00.001234''"
  by (simp add: isoformat_def example_src_def zero_pad_def str_nat_def dec_digits.simps
        digit_char_def ascii_def numeral_2_eq_2)

section \<open>Reading back what was written: bytes and strings\<close>

lemma unat_ascii: "c < 128 \<Longrightarrow> unat (of_nat c :: byte) = c"
  by (simp add: unat_of_nat)

lemma utf8_decode_ascii: "is_ascii s \<Longrightarrow> utf8_decode (map of_nat s) = Some s"
  by (induction s) (simp_all add: unat_ascii)

lemma hex_val_hex_char: "d < 16 \<Longrightarrow> hex_val (hex_char d) = Some d"
  by (simp add: hex_val_def hex_char_def)

lemma hex_digits_value:
  assumes "(n::nat) < 65536"
  shows "((n div 4096 mod 16 * 16 + n div 256 mod 16) * 16 + n div 16 mod 16) * 16 + n mod 16 = n"
proof -
  have a: "n div 4096 mod 16 = n div 4096"
    using assms by simp
  have b1: "n div 256 div 16 = n div 4096" and c1: "n div 16 div 16 = n div 256"
    by (simp_all add: div_mult2_eq [symmetric])
  have b: "n div 4096 * 16 + n div 256 mod 16 = n div 256"
    using div_mult_mod_eq [of "n div 256" 16] unfolding b1 .
  have c: "n div 256 * 16 + n div 16 mod 16 = n div 16"
    using div_mult_mod_eq [of "n div 16" 16] unfolding c1 .
  show ?thesis
    unfolding a b c by simp
qed

lemma hex4_val_hex4: "n < 65536 \<Longrightarrow> hex4 n = [a, b, c, d] \<Longrightarrow> hex4_val a b c d = Some n"
proof -
  assume n: "n < 65536" and h: "hex4 n = [a, b, c, d]"
  have v: "hex_val a = Some (n div 4096 mod 16)" "hex_val b = Some (n div 256 mod 16)"
    "hex_val c = Some (n div 16 mod 16)" "hex_val d = Some (n mod 16)"
    using h by (auto simp: hex4_def hex_val_hex_char)
  show ?thesis
    by (simp only: hex4_val_def v prod.case option.case hex_digits_value [OF n])
qed


lemma hex4_shape: "\<exists>a b c d. hex4 n = [a, b, c, d]"
  by (simp add: hex4_def)

text \<open>The scanner undoes the escape of one code point.\<close>

lemma scanstring_u_escape:
  assumes "u < 65536" and "u < 55296 \<or> 56319 < u"
  shows "scanstring (92 # 117 # hex4 u @ t) = map_option (\<lambda>(x, r). (u # x, r)) (scanstring t)"
proof -
  obtain a b c d where h: "hex4 u = [a, b, c, d]"
    using hex4_shape by blast
  have v: "hex4_val a b c d = Some u"
    using assms(1) h by (rule hex4_val_hex4)
  show ?thesis
    using assms(2) by (auto simp: h v)
qed

lemma scanstring_pair_escape:
  assumes hi: "55296 \<le> u" "u \<le> 56319" and lo: "56320 \<le> u2" "u2 \<le> 57343"
  shows "scanstring (92 # 117 # hex4 u @ 92 # 117 # hex4 u2 @ t)
           = map_option (\<lambda>(x, r). ((65536 + (u - 55296) * 1024 + (u2 - 56320)) # x, r)) (scanstring t)"
proof -
  obtain a b c d where h: "hex4 u = [a, b, c, d]"
    using hex4_shape by blast
  obtain a2 b2 c2 d2 where h2: "hex4 u2 = [a2, b2, c2, d2]"
    using hex4_shape by blast
  have v: "hex4_val a b c d = Some u"
    using hi h by (intro hex4_val_hex4) simp_all
  have v2: "hex4_val a2 b2 c2 d2 = Some u2"
    using lo h2 by (intro hex4_val_hex4) simp_all
  show ?thesis
    using hi lo by (simp add: h h2 v v2)
qed

lemma scanstring_escape_char:
  assumes "scalar_value c"
  shows "scanstring (escape_char c @ t) = map_option (\<lambda>(x, r). (c # x, r)) (scanstring t)"
proof -
  consider "c = 34" | "c = 92" | "c = 8" | "c = 12" | "c = 10" | "c = 13" | "c = 9"
    | "32 \<le> c" "c \<le> 126" "c \<noteq> 34" "c \<noteq> 92"
    | "c < 32" "c \<noteq> 8" "c \<noteq> 12" "c \<noteq> 10" "c \<noteq> 13" "c \<noteq> 9"
    | "126 < c" "c < 65536" | "65536 \<le> c"
    by linarith
  then show ?thesis
  proof cases
    case 8
    then show ?thesis by (simp add: escape_char_def)
  next
    case 9
    then have e: "escape_char c = 92 # 117 # hex4 c"
      by (simp add: escape_char_def)
    show ?thesis
      unfolding e using 9 by (simp add: scanstring_u_escape [simplified])
  next
    case 10
    then have e: "escape_char c = 92 # 117 # hex4 c"
      by (simp add: escape_char_def)
    have "c < 55296 \<or> 56319 < c"
      using assms by (auto simp: scalar_value_def)
    then show ?thesis
      unfolding e using 10 by (simp add: scanstring_u_escape [simplified])
  next
    case 11
    define m where "m = c - 65536"
    have m: "m < 1048576" "c = 65536 + m"
      using assms 11 by (simp_all add: scalar_value_def m_def)
    have e: "escape_char c = 92 # 117 # hex4 (55296 + m div 1024 mod 1024)
                @ 92 # 117 # hex4 (56320 + m mod 1024)"
      using 11 by (simp add: escape_char_def m_def)
    have d: "m div 1024 mod 1024 = m div 1024"
      using m(1) by simp
    have v: "65536 + (55296 + m div 1024 - 55296) * 1024 + (56320 + m mod 1024 - 56320) = c"
      using m(2) by simp
    have "scanstring ((92 # 117 # hex4 (55296 + m div 1024) @ 92 # 117 # hex4 (56320 + m mod 1024)) @ t)
        = map_option (\<lambda>(x, r). (c # x, r)) (scanstring t)"
      using scanstring_pair_escape [of "55296 + m div 1024" "56320 + m mod 1024" t] m(1)
      unfolding v by simp
    then show ?thesis
      unfolding e d by simp
  qed (simp_all add: escape_char_def unescape_def)
qed

lemma scanstring_escaped:
  "valid_str s \<Longrightarrow> scanstring (concat (map escape_char s) @ 34 # rest) = Some (s, rest)"
  by (induction s) (simp_all add: valid_str_def scanstring_escape_char)

lemma parse_value_json_str:
  "valid_str s \<Longrightarrow> parse_value (Suc n) (json_str s @ rest) = Some (PStr s, rest)"
  by (simp add: json_str_def scanstring_escaped)

section \<open>Reading back what was written: numbers\<close>

lemma span_digits:
  "list_all is_digit xs \<Longrightarrow> ends_digits t \<Longrightarrow>
   takeWhile is_digit (xs @ t) = xs \<and> dropWhile is_digit (xs @ t) = t"
  by (induction xs) (auto simp: ends_digits_def split: list.splits)

lemma ends_digits_simps [simp]:
  "ends_digits []" "ends_digits (c # r) \<longleftrightarrow> \<not> is_digit c"
  by (simp_all add: ends_digits_def)

lemma stops_ends_digits: "stops rest \<Longrightarrow> ends_digits rest"
  by (auto simp: stops_def ends_digits_def is_digit_def split: list.splits)

lemma scan_sign_text:
  "c \<noteq> 45 \<Longrightarrow> scan_sign ((if neg then [45] else []) @ c # t) = (neg, c # t)"
  by (simp add: scan_sign_def)

lemma scan_int_zero: "scan_int (48 # t) = ([48], t)"
  by (simp add: scan_int_def)

lemma scan_int_digits:
  "49 \<le> c \<Longrightarrow> c \<le> 57 \<Longrightarrow> list_all is_digit xs \<Longrightarrow> ends_digits t \<Longrightarrow>
   scan_int (c # xs @ t) = (c # xs, t)"
  using span_digits [of "c # xs" t] by (simp add: scan_int_def is_digit_def)

lemma scan_frac_some:
  "list_all is_digit fp \<Longrightarrow> fp \<noteq> [] \<Longrightarrow> ends_digits t \<Longrightarrow> scan_frac (46 # fp @ t) = (fp, t)"
  using span_digits [of fp t] by (simp add: scan_frac_def)

lemma scan_frac_none: "stops t \<Longrightarrow> scan_frac t = ([], t)"
  by (auto simp: scan_frac_def stops_def split: list.splits)

lemma scan_frac_exp: "scan_frac (101 # t) = ([], 101 # t)"
  by (simp add: scan_frac_def)

lemma scan_exponent_none: "stops t \<Longrightarrow> scan_exponent t = (None, t)"
  by (auto simp: scan_exponent_def stops_def split: list.splits)

lemma scan_exponent_minus:
  "list_all is_digit ed \<Longrightarrow> ed \<noteq> [] \<Longrightarrow> ends_digits t \<Longrightarrow>
   scan_exponent (101 # 45 # ed @ t) = (Some (- int (decode_digits ed)), t)"
  using span_digits [of ed t] by (simp add: scan_exponent_def)

lemma scan_exponent_plus:
  "list_all is_digit ed \<Longrightarrow> ed \<noteq> [] \<Longrightarrow> ends_digits t \<Longrightarrow>
   scan_exponent (101 # 43 # ed @ t) = (Some (int (decode_digits ed)), t)"
  using span_digits [of ed t] by (simp add: scan_exponent_def)

text \<open>Digits and their characters.\<close>

lemma digit_chars_digits:
  "list_all (\<lambda>d. d < 10) ds \<Longrightarrow> list_all is_digit (map digit_char ds)"
  by (induction ds) (simp_all add: is_digit_digit_char)

lemma digit_chars_values [simp]: "map ((\<lambda>c. c - 48) \<circ> digit_char) ds = ds"
  by (induction ds) (simp_all add: digit_char_def)

lemma strip_zeros_nonzero: "d \<noteq> 0 \<Longrightarrow> strip_zeros (d # ds) = d # ds"
  by simp

lemma strip_zeros_replicate: "strip_zeros (replicate k 0 @ ds) = strip_zeros ds"
  by (induction k) simp_all

lemma leading_zeros_replicate:
  "d \<noteq> 0 \<Longrightarrow> takeWhile (\<lambda>d. d = 0) (replicate k 0 @ d # ds) = replicate k 0"
  by (induction k) simp_all

lemma strip_trailing_zeros_id:
  "ds \<noteq> [] \<Longrightarrow> last ds \<noteq> 0 \<Longrightarrow> strip_trailing_zeros ds = ds"
  by (cases ds rule: rev_cases) (simp_all add: strip_trailing_zeros_def)

lemma strip_trailing_zeros_replicate:
  "strip_trailing_zeros (ds @ replicate k 0) = strip_trailing_zeros ds"
  by (simp add: strip_trailing_zeros_def strip_zeros_replicate)

text \<open>The float that the text of a float denotes, for each form of the text.\<close>

lemma float_of_text_split:
  assumes "ds \<noteq> []" and "hd ds \<noteq> 0" and "last ds \<noteq> 0"
  shows "float_of_text neg (map digit_char (take k ds)) (map digit_char (drop k ds)) e
           = PyFloat neg ds (int (length (take k ds)) + e)"
proof -
  obtain d ds' where ds: "ds = d # ds'" and d: "d \<noteq> 0"
    using assms(1,2) by (cases ds) auto
  have v: "map (\<lambda>c. c - 48) (map digit_char (take k ds) @ map digit_char (drop k ds)) = ds"
    by simp
  have s: "strip_zeros ds = ds" "takeWhile (\<lambda>d. d = 0) ds = []"
    using d by (simp_all add: ds)
  show ?thesis
    unfolding float_of_text_def Let_def v s
    using assms(1,3) by (simp add: strip_trailing_zeros_id)
qed

lemma float_of_text_small:
  assumes "ds \<noteq> []" and "hd ds \<noteq> 0" and "last ds \<noteq> 0"
  shows "float_of_text neg [48] (replicate k 48 @ map digit_char ds) 0 = PyFloat neg ds (- int k)"
proof -
  obtain d ds' where ds: "ds = d # ds'" and d: "d \<noteq> 0"
    using assms(1,2) by (cases ds) auto
  have v: "map (\<lambda>c. c - 48) ([48] @ replicate k 48 @ map digit_char ds) = replicate (Suc k) 0 @ ds"
    by simp
  have s: "strip_zeros (replicate (Suc k) 0 @ ds) = ds"
    "takeWhile (\<lambda>d. d = 0) (replicate (Suc k) 0 @ ds) = replicate (Suc k) 0"
    using d strip_zeros_replicate [of "Suc k" ds] leading_zeros_replicate [of d "Suc k" ds']
    by (simp_all add: ds)
  show ?thesis
    unfolding float_of_text_def Let_def v s
    using assms(1,3) by (simp add: strip_trailing_zeros_id)
qed

lemma float_of_text_big:
  assumes "ds \<noteq> []" and "hd ds \<noteq> 0" and "last ds \<noteq> 0"
  shows "float_of_text neg (map digit_char ds @ replicate k 48) [48] 0
           = PyFloat neg ds (int (length ds) + int k)"
proof -
  obtain d ds' where ds: "ds = d # ds'" and d: "d \<noteq> 0"
    using assms(1,2) by (cases ds) auto
  have v: "map (\<lambda>c. c - 48) ((map digit_char ds @ replicate k 48) @ [48]) = ds @ replicate (Suc k) 0"
    by (simp add: replicate_append_same)
  have s: "strip_zeros (ds @ replicate (Suc k) 0) = ds @ replicate (Suc k) 0"
    "takeWhile (\<lambda>d. d = 0) (ds @ replicate (Suc k) 0) = []"
    using d by (simp_all add: ds)
  have t: "strip_trailing_zeros (ds @ replicate (Suc k) 0) = ds"
    using strip_trailing_zeros_id [OF assms(1,3)] by (simp only: strip_trailing_zeros_replicate)
  show ?thesis
    unfolding float_of_text_def Let_def v s t
    using assms(1) by simp
qed

lemma float_of_text_zero: "float_of_text neg [48] [48] 0 = PyFloat neg [0] 1"
  by (simp add: float_of_text_def)


lemma list_all_take_drop:
  "list_all P xs \<Longrightarrow> list_all P (take n xs) \<and> list_all P (drop n xs)"
  unfolding list_all_iff by (auto dest: in_set_takeD in_set_dropD)

text \<open>The scanner reads the text of a float back.\<close>

lemma zero_pad_not_Nil [simp]: "zero_pad w n \<noteq> []"
  by (simp add: zero_pad_def str_nat_def)

lemma scan_number_float_repr:
  assumes v: "valid_float f" and rest: "stops rest"
  shows "scan_number (float_repr f @ rest) = Some (PFloat f, rest)"
proof -
  obtain neg ds p where f: "f = PyFloat neg ds p" by (cases f)
  let ?sgn = "if neg then [45] else []"
  let ?cs = "map digit_char ds"
  have lt: "list_all (\<lambda>d. d < 10) ds" and ne: "ds \<noteq> []"
    using v by (simp_all add: valid_float_def f)
  have ed: "ends_digits rest" using rest by (rule stops_ends_digits)
  from v consider (zero) "ds = [0]" "p = 1" | (nonzero) "hd ds \<noteq> 0" "last ds \<noteq> 0"
    by (auto simp: valid_float_def f)
  then show ?thesis
  proof cases
    case zero
    have r: "float_repr f @ rest = ?sgn @ 48 # 46 # [48] @ rest"
      using zero by (simp add: f float_repr_def Let_def ascii_def digit_char_def)
    have fr: "scan_frac (46 # 48 # rest) = ([48], rest)"
      using scan_frac_some [of "[48]" rest] ed by (simp add: is_digit_def)
    show ?thesis
      unfolding r scan_number_def
      using zero rest fr
      by (simp add: scan_sign_text scan_int_zero scan_exponent_none float_of_text_zero f)
  next
    case nonzero
    obtain d ds' where ds: "ds = d # ds'"
      using ne by (cases ds) auto
    have d: "1 \<le> d" "d \<le> 9"
      using nonzero(1) lt by (simp_all add: ds)
    let ?c = "digit_char d" and ?cs' = "map digit_char ds'"
    have c: "49 \<le> ?c" "?c \<le> 57" "?c \<noteq> 45" "?c \<noteq> 48"
      using d by (simp_all add: digit_char_def)
    have cs: "?cs = ?c # ?cs'" by (simp add: ds)
    have dg: "list_all is_digit ?cs" "list_all is_digit ?cs'"
      using lt digit_chars_digits [of ds] by (simp_all add: ds)
    consider (exp) "p \<le> - 4 \<or> 16 < p" | (small) "- 4 < p" "p \<le> 0"
      | (mid) "0 < p" "p < int (length ds)" "p \<le> 16" | (big) "int (length ds) \<le> p" "p \<le> 16"
      by linarith
    then show ?thesis
    proof cases
      case exp
      let ?m = "nat \<bar>p - 1\<bar>"
      let ?sc = "if p - 1 < 0 then 45 else (43::nat)"
      have r: "float_repr f @ rest
          = ?sgn @ ?c # [] @ (if ds' = [] then [] else 46 # ?cs') @ 101 # ?sc # zero_pad 2 ?m @ rest"
        using exp by (auto simp: f float_repr_def Let_def ascii_def cs)
      have zp: "list_all is_digit (zero_pad 2 ?m)" by (rule zero_pad_digits)
      have ft: "float_of_text neg [?c] ?cs' (p - 1) = PyFloat neg ds p"
        using float_of_text_split [OF ne nonzero, of neg 1 "p - 1"] by (simp add: ds)
      have ex: "scan_exponent (101 # ?sc # zero_pad 2 ?m @ rest) = (Some (p - 1), rest)"
        using scan_exponent_minus [OF zp _ ed] scan_exponent_plus [OF zp _ ed]
        by (auto simp: decode_digits_zero_pad)
      show ?thesis
      proof (cases "ds' = []")
        case True
        have i: "scan_int (?c # [] @ 101 # ?sc # zero_pad 2 ?m @ rest)
                   = ([?c], 101 # ?sc # zero_pad 2 ?m @ rest)"
          using c by (intro scan_int_digits) (simp_all add: is_digit_def)
        show ?thesis
          unfolding r scan_number_def
          using True c i ex ft
          by (simp add: scan_sign_text scan_frac_exp f)
      next
        case False
        have i: "scan_int (?c # [] @ 46 # ?cs' @ 101 # ?sc # zero_pad 2 ?m @ rest)
                   = ([?c], 46 # ?cs' @ 101 # ?sc # zero_pad 2 ?m @ rest)"
          using c by (intro scan_int_digits) (simp_all add: is_digit_def)
        have fr: "scan_frac (46 # ?cs' @ 101 # ?sc # zero_pad 2 ?m @ rest)
                   = (?cs', 101 # ?sc # zero_pad 2 ?m @ rest)"
          using dg(2) False by (intro scan_frac_some) (simp_all add: is_digit_def)
        show ?thesis
          unfolding r scan_number_def
          using False c i fr ex ft
          by (simp add: scan_sign_text f)
      qed
    next
      case small
      let ?k = "nat (- p)"
      have r: "float_repr f @ rest = ?sgn @ 48 # 46 # (replicate ?k 48 @ ?cs) @ rest"
        using small by (auto simp: f float_repr_def Let_def ascii_def)
      have z: "list_all is_digit (replicate ?k 48 @ ?cs)"
        using dg(1) by (auto simp: is_digit_def list_all_iff)
      have fr: "scan_frac (46 # (replicate ?k 48 @ ?cs) @ rest) = (replicate ?k 48 @ ?cs, rest)"
        using z ed by (intro scan_frac_some) (simp_all add: cs)
      have ft: "float_of_text neg [48] (replicate ?k 48 @ ?cs) 0 = PyFloat neg ds p"
        using float_of_text_small [OF ne nonzero, of neg ?k] small by simp
      show ?thesis
        unfolding r scan_number_def
        using fr ft rest
        by (simp add: scan_sign_text scan_int_zero scan_exponent_none f cs del: append_assoc)
    next
      case mid
      let ?k = "nat p"
      have k: "0 < ?k" "?k < length ds" using mid by simp_all
      have r: "float_repr f @ rest = ?sgn @ ?c # (take (?k - 1) ?cs') @ 46 # drop ?k ?cs @ rest"
        using mid k by (auto simp: f float_repr_def Let_def ascii_def ds take_Cons')
      have t: "list_all is_digit (take (?k - 1) ?cs')" "list_all is_digit (drop ?k ?cs)"
        using list_all_take_drop [OF dg(2)] list_all_take_drop [OF dg(1)] by simp_all
      have dn: "drop ?k ?cs \<noteq> []" using k by simp
      have i: "scan_int (?c # take (?k - 1) ?cs' @ 46 # drop ?k ?cs @ rest)
                 = (?c # take (?k - 1) ?cs', 46 # drop ?k ?cs @ rest)"
        using c t(1) by (intro scan_int_digits) (simp_all add: is_digit_def)
      have fr: "scan_frac (46 # drop ?k ?cs @ rest) = (drop ?k ?cs, rest)"
        using t(2) dn ed by (intro scan_frac_some)
      have tk: "?c # take (?k - 1) ?cs' = map digit_char (take ?k ds)"
        using k by (simp add: ds take_Cons' take_map)
      have ft: "float_of_text neg (map digit_char (take ?k ds)) (map digit_char (drop ?k ds)) 0
                  = PyFloat neg ds p"
        using float_of_text_split [OF ne nonzero, of neg ?k 0] k mid by simp
      have ft': "float_of_text neg (?c # take (?k - 1) ?cs') (drop ?k ?cs) 0 = PyFloat neg ds p"
        unfolding tk drop_map by (rule ft)
      show ?thesis
        unfolding r scan_number_def
        using c i fr ft' dn rest
        by (simp add: scan_sign_text scan_exponent_none f)
    next
      case big
      let ?k = "nat (p - int (length ds))"
      have r: "float_repr f @ rest = ?sgn @ ?c # (?cs' @ replicate ?k 48) @ 46 # [48] @ rest"
        using big by (auto simp: f float_repr_def Let_def ascii_def ds)
      have z: "list_all is_digit (?cs' @ replicate ?k 48)"
        using dg(2) by (auto simp: is_digit_def list_all_iff)
      have i: "scan_int (?c # (?cs' @ replicate ?k 48) @ 46 # [48] @ rest)
                 = (?c # ?cs' @ replicate ?k 48, 46 # [48] @ rest)"
        using c z by (intro scan_int_digits) (simp_all add: is_digit_def)
      have fr: "scan_frac (46 # [48] @ rest) = ([48], rest)"
        using ed by (intro scan_frac_some) (simp_all add: is_digit_def)
      have ft: "float_of_text neg (?c # ?cs' @ replicate ?k 48) [48] 0 = PyFloat neg ds p"
        using float_of_text_big [OF ne nonzero, of neg ?k] big by (simp add: cs)
      show ?thesis
        unfolding r scan_number_def
        using c i fr ft rest
        by (simp add: scan_sign_text scan_exponent_none f)
    qed
  qed
qed

lemma decode_digits_str_nat: "decode_digits (str_nat n) = n"
  by (simp add: decode_digits_def str_nat_def digits_value_dec_digits)

lemma str_nat_shape:
  "str_nat n = [48] \<and> n = 0 \<or> (\<exists>c cs. str_nat n = c # cs \<and> 49 \<le> c \<and> c \<le> 57 \<and> list_all is_digit cs)"
proof (cases "n = 0")
  case True
  then show ?thesis by (simp add: str_nat_def dec_digits.simps digit_char_def)
next
  case False
  obtain d ds where ds: "dec_digits n = d # ds"
    using dec_digits_not_Nil [of n] by (cases "dec_digits n") auto
  have "d \<noteq> 0" using dec_digits_hd [of n] False ds by simp
  moreover have "d < 10" "list_all (\<lambda>d. d < 10) ds"
    using dec_digits_lt_10 [of n] by (simp_all add: ds)
  ultimately have "49 \<le> digit_char d" "digit_char d \<le> 57" "list_all is_digit (map digit_char ds)"
    by (simp_all add: digit_char_def digit_chars_digits)
  then show ?thesis by (simp add: str_nat_def ds)
qed

lemma scan_number_str_nat:
  assumes "stops rest"
  shows "scan_number ((if neg then [45] else []) @ str_nat n @ rest)
           = Some (PInt ((if neg then - 1 else 1) * int n), rest)"
proof -
  have ed: "ends_digits rest" using assms by (rule stops_ends_digits)
  from str_nat_shape [of n] show ?thesis
  proof (elim disjE conjE exE)
    assume z: "str_nat n = [48]" "n = 0"
    show ?thesis
      unfolding scan_number_def z(1)
      using assms z(2)
      by (simp add: scan_sign_text scan_int_zero scan_frac_none scan_exponent_none
            decode_digits_def)
  next
    fix c cs
    assume s: "str_nat n = c # cs" and c: "49 \<le> c" "c \<le> 57" and cs: "list_all is_digit cs"
    have i: "scan_int (c # cs @ rest) = (c # cs, rest)"
      using c cs ed by (rule scan_int_digits)
    have v: "decode_digits (c # cs) = n"
      using decode_digits_str_nat [of n] by (simp add: s)
    show ?thesis
      unfolding scan_number_def s
      using assms c i v
      by (simp add: scan_sign_text scan_frac_none scan_exponent_none)
  qed
qed

lemma scan_number_str_int:
  "stops rest \<Longrightarrow> scan_number (str_int i @ rest) = Some (PInt i, rest)"
  using scan_number_str_nat [of rest "i < 0" "nat \<bar>i\<bar>"]
  by (auto simp: str_int_def)

lemma parse_value_number:
  "c = 45 \<or> is_digit c \<Longrightarrow> parse_value (Suc n) (c # t) = scan_number (c # t)"
  by (auto simp: is_digit_def ascii_def)

lemma float_repr_head:
  "valid_float f \<Longrightarrow> \<exists>c t. float_repr f = c # t \<and> (c = 45 \<or> is_digit c)"
proof -
  assume v: "valid_float f"
  obtain neg ds p where f: "f = PyFloat neg ds p" by (cases f)
  obtain d ds' where ds: "ds = d # ds'" and d: "d < 10"
    using v by (cases ds) (auto simp: valid_float_def f)
  have "is_digit (digit_char d)" using d by (rule is_digit_digit_char)
  then show ?thesis
    by (cases neg) (auto simp: f ds float_repr_def Let_def ascii_def is_digit_def take_Cons')
qed

lemma str_int_head: "\<exists>c t. str_int i = c # t \<and> (c = 45 \<or> is_digit c)"
  using str_nat_shape [of "nat i"] by (auto simp: str_int_def is_digit_def)

lemma parse_value_float:
  assumes "valid_float f" and "stops rest"
  shows "parse_value (Suc n) (float_repr f @ rest) = Some (PFloat f, rest)"
proof -
  obtain c t where h: "float_repr f = c # t" "c = 45 \<or> is_digit c"
    using float_repr_head [OF assms(1)] by blast
  have "parse_value (Suc n) ((c # t) @ rest) = scan_number ((c # t) @ rest)"
    using parse_value_number [OF h(2)] by simp
  then show ?thesis
    using scan_number_float_repr [OF assms] by (simp add: h(1))
qed

lemma parse_value_int:
  assumes "stops rest"
  shows "parse_value (Suc n) (str_int i @ rest) = Some (PInt i, rest)"
proof -
  obtain c t where h: "str_int i = c # t" "c = 45 \<or> is_digit c"
    using str_int_head by blast
  have "parse_value (Suc n) ((c # t) @ rest) = scan_number ((c # t) @ rest)"
    using parse_value_number [OF h(2)] by simp
  then show ?thesis
    using scan_number_str_int [OF assms, of i] by (simp add: h(1))
qed

lemma parse_value_literals:
  "parse_value (Suc n) (ascii ''null'' @ rest) = Some (PNone, rest)"
  "parse_value (Suc n) (ascii ''true'' @ rest) = Some (PBool True, rest)"
  "parse_value (Suc n) (ascii ''false'' @ rest) = Some (PBool False, rest)"
  by (simp_all add: ascii_def)

section \<open>Reading back what was written: arrays and objects\<close>

declare parse_value.simps [simp del] parse_elems.simps [simp del] parse_pairs.simps [simp del]

lemma skip_ws_newline_indent:
  "\<not> is_ws c \<Longrightarrow> skip_ws (newline_indent n @ c # t) = c # t"
  by (simp add: skip_ws_def newline_indent_def is_ws_def dropWhile_append3)

lemma skip_ws_head: "\<not> is_ws c \<Longrightarrow> skip_ws (c # t) = c # t"
  by (simp add: skip_ws_def)

lemma stops_simps [simp]:
  "stops []" "stops (newline_indent n @ t)" "stops (44 # t)" "stops (10 # t)"
  by (simp_all add: stops_def newline_indent_def)

lemma py_dict_distinct: "distinct (map fst kvs) \<Longrightarrow> py_dict kvs = kvs"
proof -
  have set_append: "k \<notin> fst ` set d \<Longrightarrow> dict_set d k v = d @ [(k, v)]" for d k v
    by (induction d) auto
  have "distinct (map fst (d @ kvs)) \<Longrightarrow>
        foldl (\<lambda>d kv. dict_set d (fst kv) (snd kv)) d kvs = d @ kvs" for d
  proof (induction kvs arbitrary: d)
    case Nil
    then show ?case by simp
  next
    case (Cons kv kvs)
    have "fst kv \<notin> fst ` set d" using Cons.prems by auto
    then have "dict_set d (fst kv) (snd kv) = d @ [kv]"
      using set_append [of "fst kv" d "snd kv"] by simp
    moreover have "distinct (map fst ((d @ [kv]) @ kvs))" using Cons.prems by simp
    ultimately show ?case using Cons.IH [of "d @ [kv]"] by simp
  qed
  from this [of "[]"] show "distinct (map fst kvs) \<Longrightarrow> py_dict kvs = kvs"
    by (simp add: py_dict_def)
qed


text \<open>What a serialised value starts with.\<close>


lemma json_str_head: "\<exists>t. json_str s = 34 # t"
  by (simp add: json_str_def)

lemma dumps_head:
  "json_exact v \<Longrightarrow> \<exists>c t. dumps level v = c # t \<and> value_start c"
proof (cases v)
  case (PFloat f)
  assume "json_exact v"
  then obtain c t where "float_repr f = c # t" "c = 45 \<or> is_digit c"
    using float_repr_head [of f] PFloat by auto
  then show ?thesis
    by (auto simp: PFloat value_start_def is_ws_def is_digit_def)
next
  case (PInt i)
  obtain c t where "str_int i = c # t" "c = 45 \<or> is_digit c"
    using str_int_head by blast
  then show ?thesis
    by (auto simp: PInt value_start_def is_ws_def is_digit_def)
qed (auto simp: value_start_def is_ws_def ascii_def json_str_def)

lemma dumps_elems_head:
  "vs \<noteq> [] \<Longrightarrow> list_all json_exact vs \<Longrightarrow> \<exists>c t. dumps_elems level vs = c # t \<and> value_start c"
proof (cases vs)
  case Nil
  assume "vs \<noteq> []"
  with Nil show ?thesis by simp
next
  case (Cons v vs')
  assume "list_all json_exact vs"
  then obtain c t where "dumps level v = c # t" "value_start c"
    using dumps_head [of v level] Cons by auto
  then show ?thesis by (simp add: Cons)
qed

lemma dumps_items_head: "kvs \<noteq> [] \<Longrightarrow> \<exists>t. dumps_items level kvs = 34 # t"
  by (cases kvs) (auto simp: json_str_def)

lemma length_newline_indent [simp]: "length (newline_indent n) = Suc (2 * n)"
  by (simp add: newline_indent_def)

text \<open>
  The scanner reads a serialised value back, whatever follows it, given fuel beyond the
  length of the text.
\<close>

lemma parse_dumps:
  "json_exact v \<Longrightarrow> stops rest \<Longrightarrow> length (dumps level v) < m \<Longrightarrow>
     parse_value m (dumps level v @ rest) = Some (v, rest)"
  "vs \<noteq> [] \<Longrightarrow> list_all json_exact vs \<Longrightarrow> stops tail \<Longrightarrow> skip_ws tail = 93 # rest \<Longrightarrow>
     length (dumps_elems level vs) + 1 < m \<Longrightarrow>
     parse_elems m (dumps_elems level vs @ tail) = Some (vs, rest)"
  "kvs \<noteq> [] \<Longrightarrow> list_all (\<lambda>kv. valid_str (fst kv) \<and> json_exact (snd kv)) kvs \<Longrightarrow>
     stops tail \<Longrightarrow> skip_ws tail = 125 # rest \<Longrightarrow> length (dumps_items level kvs) + 1 < m \<Longrightarrow>
     parse_pairs m (dumps_items level kvs @ tail) = Some (kvs, rest)"
proof (induction level v and level vs and level kvs arbitrary: m rest and m tail rest and m tail rest
    rule: dumps_dumps_elems_dumps_items.induct)
  case (1 level)
  then obtain n where "m = Suc n" by (cases m) auto
  then show ?case by (simp add: parse_value_literals)
next
  case (2 level b)
  then obtain n where "m = Suc n" by (cases m) auto
  then show ?case by (simp add: parse_value_literals)
next
  case (3 level i)
  then obtain n where "m = Suc n" by (cases m) auto
  then show ?case using 3 by (simp add: parse_value_int)
next
  case (4 level f)
  then obtain n where "m = Suc n" by (cases m) auto
  then show ?case using 4 by (simp add: parse_value_float)
next
  case (5 level s)
  then obtain n where "m = Suc n" by (cases m) auto
  then show ?case using 5 by (simp add: parse_value_json_str)
next
  case (6 level vs)
  then obtain n where m: "m = Suc n" by (cases m) auto
  show ?case
  proof (cases "vs = []")
    case True
    then show ?thesis by (simp add: m ascii_def skip_ws_def is_ws_def parse_value.simps)
  next
    case False
    obtain c t where h: "dumps_elems (Suc level) vs = c # t" "value_start c"
      using dumps_elems_head [OF False, of "Suc level"] "6.prems"(1) by auto
    let ?tail = "newline_indent level @ 93 # rest"
    have tl: "stops ?tail" "skip_ws ?tail = 93 # rest"
      by (simp_all add: skip_ws_newline_indent is_ws_def)
    have len: "length (dumps_elems (Suc level) vs) + 1 < n"
      using "6.prems"(3) False by (simp add: m ascii_def)
    have e: "parse_elems n (dumps_elems (Suc level) vs @ ?tail) = Some (vs, rest)"
      using "6.IH" [OF False False _ tl len] "6.prems"(1) by simp
    have sk: "skip_ws (newline_indent (Suc level) @ (c # t) @ ?tail) = (c # t) @ ?tail"
      using h(2) skip_ws_newline_indent [of c "Suc level" "t @ ?tail"]
      by (simp add: value_start_def)
    show ?thesis
      using False h(2) e sk
      by (simp add: m ascii_def h(1) value_start_def parse_value.simps)
  qed
next
  case (7 level kvs)
  then obtain n where m: "m = Suc n" by (cases m) auto
  show ?case
  proof (cases "kvs = []")
    case True
    then show ?thesis by (simp add: m ascii_def skip_ws_def is_ws_def parse_value.simps)
  next
    case False
    obtain t where h: "dumps_items (Suc level) kvs = 34 # t"
      using dumps_items_head [OF False] by blast
    let ?tail = "newline_indent level @ 125 # rest"
    have tl: "stops ?tail" "skip_ws ?tail = 125 # rest"
      by (simp_all add: skip_ws_newline_indent is_ws_def)
    have len: "length (dumps_items (Suc level) kvs) + 1 < n"
      using "7.prems"(3) False by (simp add: m ascii_def)
    have e: "parse_pairs n (dumps_items (Suc level) kvs @ ?tail) = Some (kvs, rest)"
      using "7.IH" [OF False False _ tl len] "7.prems"(1) by simp
    have sk: "skip_ws (newline_indent (Suc level) @ (34 # t) @ ?tail) = (34 # t) @ ?tail"
      using skip_ws_newline_indent [of 34 "Suc level" "t @ ?tail"]
      by (simp add: is_ws_def)
    have d: "py_dict kvs = kvs"
      using "7.prems"(1) by (simp add: py_dict_distinct)
    show ?thesis
      using False e sk d
      by (simp add: m ascii_def h parse_value.simps)
  qed
next
  case (8 level)
  then show ?case by simp
next
  case (9 level v vs)
  then obtain n where m: "m = Suc n" by (cases m) auto
  have ex: "json_exact v" "list_all json_exact vs"
    using "9.prems"(2) by simp_all
  show ?case
  proof (cases "vs = []")
    case True
    have "parse_value n (dumps level v @ tail) = Some (v, tail)"
      using "9.IH"(1) [OF ex(1) "9.prems"(3)] "9.prems"(5) by (simp add: m True)
    then show ?thesis
      using True "9.prems"(4) by (simp add: m parse_elems.simps)
  next
    case False
    obtain c t where h: "dumps_elems level vs = c # t" "value_start c"
      using dumps_elems_head [OF False ex(2)] by blast
    let ?more = "44 # newline_indent level @ dumps_elems level vs @ tail"
    have l1: "length (dumps level v) < n" and l2: "length (dumps_elems level vs) + 1 < n"
      using "9.prems"(5) False by (simp_all add: m ascii_def)
    have v: "parse_value n (dumps level v @ ?more) = Some (v, ?more)"
      using "9.IH"(1) [OF ex(1) _ l1] by simp
    have e: "parse_elems n (dumps_elems level vs @ tail) = Some (vs, rest)"
      using "9.IH"(2) [OF False False ex(2) "9.prems"(3,4) l2] .
    have sk: "skip_ws (newline_indent level @ (c # t) @ tail) = (c # t) @ tail"
      using h(2) skip_ws_newline_indent [of c level "t @ tail"]
      by (simp add: value_start_def)
    show ?thesis
      using False v e sk
      by (simp add: m ascii_def h(1) skip_ws_head is_ws_def parse_elems.simps)
  qed
next
  case (10 level)
  then show ?case by simp
next
  case (11 level kv kvs)
  then obtain n where m: "m = Suc n" by (cases m) auto
  have ex: "valid_str (fst kv)" "json_exact (snd kv)"
    "list_all (\<lambda>kv. valid_str (fst kv) \<and> json_exact (snd kv)) kvs"
    using "11.prems"(2) by simp_all
  obtain c0 t0 where h0: "dumps level (snd kv) = c0 # t0" "value_start c0"
    using dumps_head [OF ex(2)] by blast
  have key: "scanstring (concat (map escape_char (fst kv)) @ 34 # x) = Some (fst kv, x)" for x
    using ex(1) by (rule scanstring_escaped)
  have sk0: "skip_ws (32 # c0 # t0 @ x) = c0 # t0 @ x" for x
    using h0(2) by (simp add: skip_ws_def value_start_def is_ws_def)
  show ?case
  proof (cases "kvs = []")
    case True
    have "parse_value n (dumps level (snd kv) @ tail) = Some (snd kv, tail)"
      using "11.IH"(1) [OF ex(2) "11.prems"(3)] "11.prems"(5) by (simp add: m True ascii_def)
    then show ?thesis
      using True "11.prems"(4) key h0(1) sk0
      by (simp add: m json_str_def ascii_def skip_ws_head is_ws_def parse_pairs.simps)
  next
    case False
    obtain t where h: "dumps_items level kvs = 34 # t"
      using dumps_items_head [OF False] by blast
    let ?more = "44 # newline_indent level @ dumps_items level kvs @ tail"
    have l1: "length (dumps level (snd kv)) < n" and l2: "length (dumps_items level kvs) + 1 < n"
      using "11.prems"(5) False by (simp_all add: m ascii_def)
    have v: "parse_value n (dumps level (snd kv) @ ?more) = Some (snd kv, ?more)"
      using "11.IH"(1) [OF ex(2) _ l1] by simp
    have e: "parse_pairs n (dumps_items level kvs @ tail) = Some (kvs, rest)"
      using "11.IH"(2) [OF False False ex(3) "11.prems"(3,4) l2] .
    have sk: "skip_ws (newline_indent level @ (34 # t) @ tail) = (34 # t) @ tail"
      using skip_ws_newline_indent [of 34 level "t @ tail"]
      by (simp add: is_ws_def)
    show ?thesis
      using False v e sk key h0(1) sk0
      by (simp add: m json_str_def ascii_def h skip_ws_head is_ws_def parse_pairs.simps)
  qed
qed

section \<open>Reading back a whole record\<close>

lemma json_loads_json_dumps: "json_exact v \<Longrightarrow> json_loads (json_dumps v) = Some v"
proof -
  assume v: "json_exact v"
  obtain c t where h: "dumps 0 v = c # t" "value_start c"
    using dumps_head [OF v] by blast
  have sk: "skip_ws (dumps 0 v) = dumps 0 v"
    using h by (simp add: skip_ws_def value_start_def)
  have "parse_value (Suc (length (dumps 0 v))) (dumps 0 v @ []) = Some (v, [])"
    using v by (intro parse_dumps(1)) simp_all
  then have p: "parse_value (Suc (length (dumps 0 v))) (skip_ws (dumps 0 v)) = Some (v, [])"
    by (simp add: sk)
  have e: "skip_ws [] = []" by (simp add: skip_ws_def)
  show ?thesis
    by (simp add: json_loads_def json_dumps_def p e)
qed

lemma valid_str_ascii [simp]: "valid_str (ascii s)"
proof -
  have "scalar_value (of_char c)" for c
  proof -
    have "(of_char c :: nat) < 256" by (rule nat_of_char_less_256)
    then show ?thesis unfolding scalar_value_def by linarith
  qed
  then show ?thesis
    by (simp add: valid_str_def ascii_def list_all_iff)
qed

lemma valid_str_is_ascii: "is_ascii s \<Longrightarrow> valid_str s"
  by (auto simp: valid_str_def is_ascii_def list_all_iff scalar_value_def)

lemma valid_str_append [simp]: "valid_str (s @ t) \<longleftrightarrow> valid_str s \<and> valid_str t"
  by (simp add: valid_str_def)

lemma valid_float_of_decimal: "valid_float (float_of_decimal d)"
proof (cases "dcoeff d = 0")
  case True
  then show ?thesis by (simp add: float_of_decimal_def valid_float_def)
next
  case False
  let ?ds = "dec_digits (dcoeff d)"
  have hd: "hd ?ds \<noteq> 0" using False by (simp add: dec_digits_hd)
  have s: "strip_trailing_zeros ?ds \<noteq> []" "hd (strip_trailing_zeros ?ds) = hd ?ds"
    using strip_trailing_zeros_hd [OF dec_digits_not_Nil hd] by simp_all
  have l: "last (strip_trailing_zeros ?ds) \<noteq> 0"
    using s(1) by (rule strip_trailing_zeros_last)
  have lt: "list_all (\<lambda>d. d < 10) (strip_trailing_zeros ?ds)"
    by (simp add: strip_trailing_zeros_lt_10 dec_digits_lt_10)
  show ?thesis
    using False s l lt hd by (simp add: float_of_decimal_def valid_float_def)
qed

lemma json_exact_generated: "valid_src g \<Longrightarrow> json_exact (generate_transaction g)"
  by (simp add: generate_transaction_def valid_src_def py_round_def Let_def
        valid_float_of_decimal valid_str_is_ascii isoformat_def)


lemma valid_src_example: "valid_src example_src"
  by (simp add: valid_src_def example_src_def)

lemma send_message_puts:
  "open_raises q = None \<Longrightarrow> decimal_floats v \<Longrightarrow>
   filter is_put (history (snd (send_message q name v w)))
     = filter is_put (history w) @ [(Queue_put (map of_nat (json_dumps v)), put_raises q)]"
  by (cases "put_raises q"; cases "close_raises q")
     (simp_all add: send_message_put_raises send_message_close_raises send_message_returns)


section \<open>Properties of generated records\<close>

text \<open>
  C1. Every record the generator returns has all the fields of the data model, none of them
  \<^verbatim>\<open>None\<close>, the nested fields of \<open>location\<close> and \<open>metadata\<close> included; the enumerated
  fields take one of their listed values; the three identifiers are their prefix followed
  by five, four and three digits.
\<close>

theorem generated_record_is_complete:
  "list_all (present (generate_transaction g))
     [''transaction_id'', ''timestamp'', ''customer_id'', ''customer_name'', ''customer_email'',
      ''transaction_type'', ''category'', ''amount'', ''currency'', ''status'', ''merchant_id'',
      ''merchant_name'', ''location'', ''payment_method'', ''device_type'', ''ip_address'',
      ''user_agent'', ''metadata'']
   \<and> list_all (present (sub (generate_transaction g) ''location''))
        [''city'', ''country'', ''latitude'', ''longitude'']
   \<and> list_all (present (sub (generate_transaction g) ''metadata''))
        [''session_id'', ''referrer'', ''campaign_id'']
   \<and> str_in (generate_transaction g) ''transaction_type''
        [''purchase'', ''refund'', ''payment'', ''transfer'', ''deposit'', ''withdrawal'']
   \<and> str_in (generate_transaction g) ''category''
        [''electronics'', ''clothing'', ''food'', ''services'', ''utilities'', ''entertainment'']
   \<and> str_in (generate_transaction g) ''currency'' [''USD'', ''EUR'', ''GBP'']
   \<and> str_in (generate_transaction g) ''status''
        [''completed'', ''pending'', ''failed'', ''processing'']
   \<and> str_in (generate_transaction g) ''payment_method''
        [''credit_card'', ''debit_card'', ''paypal'', ''bank_transfer'', ''cash'']
   \<and> str_in (generate_transaction g) ''device_type'' [''mobile'', ''web'', ''pos'', ''atm'']
   \<and> str_matches (generate_transaction g) ''customer_id'' ''CUST-'' 5
   \<and> str_matches (generate_transaction g) ''merchant_id'' ''MERCH-'' 4
   \<and> str_matches (sub (generate_transaction g) ''metadata'') ''campaign_id'' ''CAMP-'' 3"
proof -
  let ?t = "generate_transaction g"
  have fields: "list_all (present ?t)
     [''transaction_id'', ''timestamp'', ''customer_id'', ''customer_name'', ''customer_email'',
      ''transaction_type'', ''category'', ''amount'', ''currency'', ''status'', ''merchant_id'',
      ''merchant_name'', ''location'', ''payment_method'', ''device_type'', ''ip_address'',
      ''user_agent'', ''metadata'']"
    by (simp add: generate_transaction_def present_def)
  have loc: "list_all (present (sub ?t ''location'')) [''city'', ''country'', ''latitude'', ''longitude'']"
    by (simp add: generate_transaction_def present_def sub_def)
  have md: "list_all (present (sub ?t ''metadata'')) [''session_id'', ''referrer'', ''campaign_id'']"
    by (simp add: generate_transaction_def present_def sub_def)
  have ty: "str_in ?t ''transaction_type''
        [''purchase'', ''refund'', ''payment'', ''transfer'', ''deposit'', ''withdrawal'']"
    using choice_in_set [of transaction_types "draw_type g"]
    by (simp add: generate_transaction_def str_in_def transaction_types_def)
  have cat: "str_in ?t ''category''
        [''electronics'', ''clothing'', ''food'', ''services'', ''utilities'', ''entertainment'']"
    using choice_in_set [of categories "draw_category g"]
    by (simp add: generate_transaction_def str_in_def categories_def)
  have cur: "str_in ?t ''currency'' [''USD'', ''EUR'', ''GBP'']"
    using choice_in_set [of currencies "draw_currency g"]
    by (simp add: generate_transaction_def str_in_def currencies_def)
  have st: "str_in ?t ''status'' [''completed'', ''pending'', ''failed'', ''processing'']"
    using choice_in_set [of statuses "draw_status g"]
    by (simp add: generate_transaction_def str_in_def statuses_def)
  have pay: "str_in ?t ''payment_method''
        [''credit_card'', ''debit_card'', ''paypal'', ''bank_transfer'', ''cash'']"
    using choice_in_set [of payment_methods "draw_payment g"]
    by (simp add: generate_transaction_def str_in_def payment_methods_def)
  have dev: "str_in ?t ''device_type'' [''mobile'', ''web'', ''pos'', ''atm'']"
    using choice_in_set [of device_types "draw_device g"]
    by (simp add: generate_transaction_def str_in_def device_types_def)
  have cust: "str_matches ?t ''customer_id'' ''CUST-'' 5"
    using str_int_randint [of 10000 4 99999 "draw_customer g"]
    by (simp add: generate_transaction_def str_matches_def prefix_digitsI)
  have merch: "str_matches ?t ''merchant_id'' ''MERCH-'' 4"
    using str_int_randint [of 1000 3 9999 "draw_merchant g"]
    by (simp add: generate_transaction_def str_matches_def prefix_digitsI)
  have camp: "str_matches (sub ?t ''metadata'') ''campaign_id'' ''CAMP-'' 3"
    using str_int_randint [of 100 2 999 "draw_campaign g"]
    by (simp add: generate_transaction_def str_matches_def sub_def prefix_digitsI)
  from fields loc md ty cat cur st pay dev cust merch camp show ?thesis by blast
qed

text \<open>
  C2, as the claim states it, fails on the decimal places: the draw \<open>2\<^sup>5\<^sup>2\<close>, for which
  \<^verbatim>\<open>random()\<close> is 0.5 and \<^verbatim>\<open>uniform(10.0, 5000.0)\<close> is 2505.0, gives the amount 2505.0,
  which has one decimal place in the record and in the payload.
\<close>

theorem amount_two_decimals_counterexample:
  "dict_get (generate_transaction example_src) (ascii ''amount'')
     = Some (PFloat (PyFloat False [2, 5, 0, 5] 4))
   \<and> float_value (PyFloat False [2, 5, 0, 5] 4) = 2505
   \<and> float_repr (PyFloat False [2, 5, 0, 5] 4) = ascii ''2505.0''
   \<and> decimal_places (ascii ''2505.0'') = 1"
proof -
  have u: "uniform 10 5000 (draw_amount example_src) = 2505"
    by (simp add: uniform_def random_unit_def example_src_def)
  have r: "py_round 2505 2 = PyFloat False [2, 5, 0, 5] 4"
    by (simp add: py_round_def round_half_even_def float_of_decimal_def dec_digits.simps
          strip_trailing_zeros_def)
  have a: "dict_get (generate_transaction example_src) (ascii ''amount'')
     = Some (PFloat (PyFloat False [2, 5, 0, 5] 4))"
    by (simp add: generate_transaction_def u r)
  have v: "float_value (PyFloat False [2, 5, 0, 5] 4) = 2505"
    by (simp add: float_value_def)
  have s: "float_repr (PyFloat False [2, 5, 0, 5] 4) = ascii ''2505.0''"
    by (simp add: float_repr_def digit_char_def ascii_def)
  have d: "decimal_places (ascii ''2505.0'') = 1"
    by (simp add: decimal_places_def is_digit_def ascii_def)
  from a v s d show ?thesis by blast
qed

text \<open>
  C2, amended. The amount of a generated record lies in \<open>[10, 5000]\<close> and is a whole number
  of hundredths; written out, as in the payload, it has one or two decimal places.
\<close>

theorem amount_in_range_with_at_most_two_decimals:
  "\<exists>f. dict_get (generate_transaction g) (ascii ''amount'') = Some (PFloat f)
     \<and> 10 \<le> float_value f \<and> float_value f \<le> 5000
     \<and> float_value f * 100 \<in> \<int>
     \<and> decimal_places (float_repr f) \<in> {1, 2}"
proof -
  define k where "k = round_half_even (uniform 10 5000 (draw_amount g) * 10 ^ 2)"
  define c where "c = nat k"
  define f where "f = float_of_decimal (Decimal False c (- 2))"
  have k: "1000 \<le> k" "k \<le> 500000"
    using amount_hundredths [of "draw_amount g"] by (simp_all add: k_def)
  then have c: "1000 \<le> c" "c \<le> 500000" and kc: "k = int c" "\<not> k < 0" "nat \<bar>k\<bar> = c"
    by (simp_all add: c_def)
  have pr: "py_round (uniform 10 5000 (draw_amount g)) 2 = f"
    unfolding py_round_def Let_def k_def [symmetric] f_def using kc(2,3) by simp
  have a: "dict_get (generate_transaction g) (ascii ''amount'') = Some (PFloat f)"
    by (simp add: generate_transaction_def pr)
  have v: "float_value f = of_nat c / 100"
    by (simp add: f_def float_value_of_decimal power_int_minus)
  have lo: "10 \<le> float_value f" and hi: "float_value f \<le> 5000"
    using c unfolding v by (simp_all add: le_divide_eq divide_le_eq)
  have "float_value f * 100 = of_nat c" unfolding v by simp
  then have whole: "float_value f * 100 \<in> \<int>" by simp
  define s where "s = strip_trailing_zeros (dec_digits c)"
  define L where "L = length (dec_digits c)"
  have L: "L \<in> {4, 5, 6}"
    unfolding L_def using c by (rule dec_digits_length_range)
  have fe: "f = PyFloat False s (int L - 2)"
    using c(1) by (simp add: f_def float_of_decimal_def s_def L_def)
  have sd: "list_all (\<lambda>d. d < 10) s"
    unfolding s_def by (simp add: strip_trailing_zeros_lt_10 dec_digits_lt_10)
  have "0 < c" using c(1) by simp
  then have "s \<noteq> []"
    unfolding s_def using strip_trailing_zeros_hd [of "dec_digits c"] dec_digits_hd [of c] by simp
  then have s1: "1 \<le> length s" by (cases s) simp_all
  have s2: "length s \<le> L"
    unfolding s_def L_def by (rule strip_trailing_zeros_length)
  have "decimal_places (float_repr f)
          = (if int L - 2 < int (length s) then length s - nat (int L - 2) else 1)"
    unfolding fe using L by (intro decimal_places_fixed [OF sd]) auto
  then have places: "decimal_places (float_repr f) \<in> {1, 2}"
    using s1 s2 L by (auto split: if_splits)
  from a lo hi whole places show ?thesis by blast
qed

theorem amount_witness:
  "\<exists>f. dict_get (generate_transaction example_src) (ascii ''amount'') = Some (PFloat f)
     \<and> 10 \<le> float_value f \<and> float_value f \<le> 5000
     \<and> float_value f * 100 \<in> \<int>
     \<and> decimal_places (float_repr f) \<in> {1, 2}"
  by (rule amount_in_range_with_at_most_two_decimals [of example_src])

section \<open>Properties of the payload and of publishing\<close>

text \<open>
  C3. The payload that \<^verbatim>\<open>send_message\<close> puts for a generated record is the UTF-8 encoding
  of the record's indented JSON text, an object in braces, and decoding the payload as
  UTF-8 and then as JSON gives the record back: the same keys in the same order with the
  same values. The strings from Faker are taken to be well-formed Unicode.
\<close>

theorem published_payload_round_trip:
  assumes "valid_src g" and "open_raises q = None"
  shows "\<exists>payload items.
    filter is_put (history (snd (send_message q name (generate_transaction g) w)))
      = filter is_put (history w) @ [(Queue_put payload, put_raises q)]
    \<and> utf8_encode (json_dumps (generate_transaction g)) = Some payload
    \<and> json_dumps (generate_transaction g)
        = ascii ''{'' @ newline_indent 1 @ items @ newline_indent 0 @ ascii ''}''
    \<and> utf8_decode payload = Some (json_dumps (generate_transaction g))
    \<and> json_loads (json_dumps (generate_transaction g)) = Some (generate_transaction g)
    \<and> decode_payload payload = Some (generate_transaction g)"
proof -
  let ?t = "generate_transaction g"
  let ?p = "map of_nat (json_dumps ?t) :: byte list"
  have asc: "is_ascii (json_dumps ?t)"
    by (simp add: json_dumps_def is_ascii_dumps decimal_floats_generated)
  have put: "filter is_put (history (snd (send_message q name ?t w)))
      = filter is_put (history w) @ [(Queue_put ?p, put_raises q)]"
    using assms(2) decimal_floats_generated by (rule send_message_puts)
  have enc: "utf8_encode (json_dumps ?t) = Some ?p"
    by (rule encode_generated)
  obtain kvs where kvs: "?t = PDict kvs" "kvs \<noteq> []"
    by (simp add: generate_transaction_def)
  have shape: "json_dumps ?t
      = ascii ''{'' @ newline_indent 1 @ dumps_items 1 kvs @ newline_indent 0 @ ascii ''}''"
    using kvs(2) by (simp add: json_dumps_def kvs(1))
  have dec: "utf8_decode ?p = Some (json_dumps ?t)"
    using asc by (rule utf8_decode_ascii)
  have loads: "json_loads (json_dumps ?t) = Some ?t"
    using assms(1) by (intro json_loads_json_dumps json_exact_generated)
  have both: "decode_payload ?p = Some ?t"
    by (simp add: decode_payload_def dec loads)
  show ?thesis
    by (intro exI conjI, rule put, rule enc, rule shape, rule dec, rule loads, rule both)
qed

theorem published_payload_witness:
  "valid_src example_src \<and> open_raises quiet_pass = None
   \<and> (\<exists>payload.
        utf8_encode (json_dumps (generate_transaction example_src)) = Some payload
        \<and> decode_payload payload = Some (generate_transaction example_src))"
proof -
  have o: "open_raises quiet_pass = None" by (simp add: quiet_pass_def)
  from published_payload_round_trip [OF valid_src_example o]
  have "\<exists>payload.
        utf8_encode (json_dumps (generate_transaction example_src)) = Some payload
        \<and> decode_payload payload = Some (generate_transaction example_src)"
    by blast
  with valid_src_example o show ?thesis by blast
qed

section \<open>Properties of the producer loop\<close>

text \<open>
  C4. A failed publish stays inside its pass. With a connection, a first pass whose
  publish raises an \<^verbatim>\<open>Exception\<close> and a second pass whose publish returns, the loop is
  still running after the two passes, the counter is 1, the failure is on the console, and
  the history shows the two sends, the first failed and the second not.
\<close>

theorem publish_failure_is_contained:
  assumes "connect_raises ev = None" and "iterations ev = [q1, q2]"
    and "gen_raises q1 = None" and "queue_raises q1 = Some (Exception m)"
    and "sleep_raises q1 = None"
    and "gen_raises q2 = None" and "queue_raises q2 = None" and "sleep_raises q2 = None"
    and "0 \<le> message_interval cfg"
  shows "\<exists>w. main cfg ev = Looping 1 w \<and> published w = 1
    \<and> Send_failed (Exception m) \<in> set (console w)
    \<and> filter (\<lambda>c. fst c = Send_message) (history w)
        = [(Send_message, Some (Exception m)), (Send_message, None)]"
proof -
  obtain w1 where c: "connect_to_mq cfg None (banner cfg \<lparr>console = [], history = []\<rparr>) = (None, w1)"
    and p1: "published w1 = 0"
    using connect_to_mq_returns [of cfg] by blast
  have h1: "filter (\<lambda>c. fst c = Send_message) (history w1) = []"
    using c by (auto simp: connect_to_mq_def Let_def banner_def)
  have quiet: "\<forall>p\<in>set [q1, q2]. leaves_body cfg p = None"
    using assms by (simp add: leaves_body_def sleep_outcome_def)
  have pub: "filter publishes [q1, q2] = [q2]"
    using assms by (simp add: publishes_def)
  obtain w where l: "producer_loop cfg [q1, q2] (0, w1) = (None, 0 + length (filter publishes [q1, q2]), w)"
    and p: "published w = published w1 + length (filter publishes [q1, q2])"
    and f: "\<forall>p\<in>set [q1, q2]. \<forall>e. gen_raises p = None \<and> queue_raises p = Some e
            \<and> catches Except_Exception e \<longrightarrow> Send_failed e \<in> set (console w)"
    and h: "filter (\<lambda>c. fst c = Send_message) (history w)
         = filter (\<lambda>c. fst c = Send_message) (history w1)
             @ map (\<lambda>p. (Send_message, queue_raises p)) (filter (\<lambda>p. gen_raises p = None) [q1, q2])"
    using producer_loop_quiet [OF quiet, of 0 w1] by blast
  have "main cfg ev = Looping 1 w"
    using assms(1,2) c l pub by (simp add: main_def Let_def)
  moreover have "published w = 1"
    using p p1 pub by simp
  moreover have "Send_failed (Exception m) \<in> set (console w)"
    using f assms(3,4) by simp
  moreover have "filter (\<lambda>c. fst c = Send_message) (history w)
        = [(Send_message, Some (Exception m)), (Send_message, None)]"
    using h h1 assms by simp
  ultimately show ?thesis by blast
qed

theorem publish_failure_witness:
  "connect_raises scenario_c = None \<and> iterations scenario_c = [full_queue_pass, quiet_pass]
   \<and> queue_raises full_queue_pass = Some (Exception ''MQRC_Q_FULL'')
   \<and> queue_raises quiet_pass = None \<and> 0 \<le> message_interval example_config
   \<and> (\<exists>w. main example_config scenario_c = Looping 1 w \<and> published w = 1
        \<and> Send_failed (Exception ''MQRC_Q_FULL'') \<in> set (console w))"
proof -
  have h: "connect_raises scenario_c = None" "iterations scenario_c = [full_queue_pass, quiet_pass]"
    "gen_raises full_queue_pass = None" "queue_raises full_queue_pass = Some (Exception ''MQRC_Q_FULL'')"
    "sleep_raises full_queue_pass = None"
    "gen_raises quiet_pass = None" "queue_raises quiet_pass = None" "sleep_raises quiet_pass = None"
    "0 \<le> message_interval example_config"
    by (simp_all add: scenario_c_def full_queue_pass_def quiet_pass_def queue_raises_def
          example_config_def)
  from publish_failure_is_contained [OF h] h show ?thesis by blast
qed

text \<open>
  C5. If connecting fails, \<^verbatim>\<open>main\<close> logs the failure and returns: the loop is not entered,
  nothing is published, neither a queue call nor a disconnect is made, and the one connect
  call is not repeated.
\<close>

theorem connection_failure_exits_without_publishing:
  assumes "connect_raises ev = Some (Exception m)"
  shows "\<exists>w. main cfg ev = Startup_failed w
    \<and> last (console w) = Connect_failed (Exception m)
    \<and> history w = [(Connect (mq_queue_manager cfg) (mq_channel cfg)
                       (mq_host cfg @ ascii ''('' @ mq_port cfg @ ascii '')'')
                       (mq_user cfg) (mq_password cfg), Some (Exception m))]
    \<and> published w = 0 \<and> calls_of is_queue_call w = 0
    \<and> calls_of (\<lambda>c. c = Disconnect) w = 0 \<and> calls_of is_connect w = 1"
  using assms
  by (simp add: main_def connect_to_mq_raises Let_def published_def calls_of_def)

theorem connection_failure_witness:
  "connect_raises refused_env = Some (Exception ''MQRC_HOST_NOT_AVAILABLE'')
   \<and> (\<exists>w. main example_config refused_env = Startup_failed w
        \<and> last (console w) = Connect_failed (Exception ''MQRC_HOST_NOT_AVAILABLE'')
        \<and> published w = 0 \<and> calls_of is_queue_call w = 0
        \<and> calls_of (\<lambda>c. c = Disconnect) w = 0 \<and> calls_of is_connect w = 1)"
proof -
  have h: "connect_raises refused_env = Some (Exception ''MQRC_HOST_NOT_AVAILABLE'')"
    by (simp add: refused_env_def)
  from connection_failure_exits_without_publishing [OF h, of example_config] h
  show ?thesis by blast
qed

text \<open>
  C6. Whatever \<^verbatim>\<open>disconnect\<close> raises, on a sound, degraded or closed connection, nothing
  leaves the \<^verbatim>\<open>finally\<close> block: the call is made once, and \<^verbatim>\<open>main\<close> ends the way it would
  have ended had \<^verbatim>\<open>disconnect\<close> returned.
\<close>

theorem disconnect_errors_never_escape:
  "fst (shutdown d n w) = None
   \<and> calls_of (\<lambda>c. c = Disconnect) (snd (shutdown d n w)) = calls_of (\<lambda>c. c = Disconnect) w + 1
   \<and> propagates (main cfg (ev\<lparr>disconnect_raises := d\<rparr>))
       = propagates (main cfg (ev\<lparr>disconnect_raises := None\<rparr>))"
proof -
  have a: "fst (shutdown d n w) = None" for d n w
    by (cases d) (simp_all add: shutdown_def Let_def)
  have b: "calls_of (\<lambda>c. c = Disconnect) (snd (shutdown d n w)) = calls_of (\<lambda>c. c = Disconnect) w + 1"
    by (cases d) (simp_all add: shutdown_def Let_def)
  have sh: "shutdown d n w =
      (None, case d of None \<Rightarrow> print (Disconnected n) (call Disconnect None w)
                     | Some e \<Rightarrow> call Disconnect (Some e) w)" for d n w
    by (cases d) (simp_all add: shutdown_def Let_def)
  have c: "propagates (main cfg (ev\<lparr>disconnect_raises := d\<rparr>))
       = propagates (main cfg (ev\<lparr>disconnect_raises := None\<rparr>))"
    by (simp add: main_def Let_def sh split: prod.split option.split)
  from a b c show ?thesis by blast
qed

text \<open>
  C7. An interrupt that arrives in a pass of the running loop, in the sleep or in any other
  call of the pass, takes \<^verbatim>\<open>main\<close> to its shutdown: the passes before it ran to their end,
  later passes never start, \<^verbatim>\<open>disconnect\<close> is called exactly once and as the last call,
  \<^verbatim>\<open>main\<close> returns, and the counter it ends with is the number of sends that returned. The
  summary line, which is printed when \<^verbatim>\<open>disconnect\<close> returns, reports that number.
\<close>

theorem interrupt_shuts_down_once:
  assumes "connect_raises ev = None"
    and "iterations ev = pre @ q # post"
    and "\<forall>p\<in>set pre. leaves_body cfg p = None"
    and "leaves_body cfg q = Some KeyboardInterrupt"
  shows "\<exists>w. main cfg ev = Stopped None (length (filter publishes (pre @ [q]))) w
    \<and> published w = length (filter publishes (pre @ [q]))
    \<and> calls_of (\<lambda>c. c = Disconnect) w = 1
    \<and> last (history w) = (Disconnect, disconnect_raises ev)
    \<and> Stopped_by_user \<in> set (console w)
    \<and> filter is_summary (console w)
        = (if disconnect_raises ev = None then [Disconnected (published w)] else [])"
proof -
  let ?n = "length (filter publishes (pre @ [q]))"
  obtain w1 where c: "connect_to_mq cfg None (banner cfg \<lparr>console = [], history = []\<rparr>) = (None, w1)"
    and p1: "published w1 = 0" and d1: "calls_of (\<lambda>c. c = Disconnect) w1 = 0"
    and s1: "filter is_summary (console w1) = []"
    using connect_to_mq_returns [of cfg] by blast
  obtain w2 where l: "producer_loop cfg (pre @ q # post) (0, w1) = (Some KeyboardInterrupt, 0 + ?n, w2)"
    and p2: "published w2 = published w1 + ?n" and k2: "pass_keeps w1 w2"
    using producer_loop_stops [OF assms(3,4), of post 0 w1] by blast
  have d2: "calls_of (\<lambda>c. c = Disconnect) w2 = 0" and s2: "filter is_summary (console w2) = []"
    using k2 d1 s1 by (simp_all add: pass_keeps_def)
  define w where "w = snd (shutdown (disconnect_raises ev) ?n (print Stopped_by_user w2))"
  have m: "main cfg ev = Stopped None ?n w"
    using assms(1,2) c l
    by (cases "disconnect_raises ev") (simp_all add: main_def Let_def shutdown_def w_def)
  have "published w = ?n"
    using p2 p1 by (cases "disconnect_raises ev") (simp_all add: w_def shutdown_def Let_def)
  moreover have "calls_of (\<lambda>c. c = Disconnect) w = 1"
    using d2 by (cases "disconnect_raises ev") (simp_all add: w_def shutdown_def Let_def)
  moreover have "last (history w) = (Disconnect, disconnect_raises ev)"
    by (cases "disconnect_raises ev") (simp_all add: w_def shutdown_def Let_def)
  moreover have "Stopped_by_user \<in> set (console w)"
    by (cases "disconnect_raises ev") (simp_all add: w_def shutdown_def Let_def)
  moreover have "filter is_summary (console w)
        = (if disconnect_raises ev = None then [Disconnected (published w)] else [])"
    using s2 p2 p1 by (cases "disconnect_raises ev") (simp_all add: w_def shutdown_def Let_def)
  ultimately show ?thesis using m by blast
qed

theorem interrupt_witness:
  "connect_raises scenario_d = None
   \<and> iterations scenario_d = [full_queue_pass, quiet_pass] @ interrupted_pass # []
   \<and> leaves_body example_config full_queue_pass = None
   \<and> leaves_body example_config quiet_pass = None
   \<and> leaves_body example_config interrupted_pass = Some KeyboardInterrupt
   \<and> (\<exists>w. main example_config scenario_d = Stopped None 2 w \<and> published w = 2
        \<and> calls_of (\<lambda>c. c = Disconnect) w = 1
        \<and> filter is_summary (console w) = [Disconnected 2])"
proof -
  have h: "connect_raises scenario_d = None"
    "iterations scenario_d = [full_queue_pass, quiet_pass] @ interrupted_pass # []"
    "\<forall>p\<in>set [full_queue_pass, quiet_pass]. leaves_body example_config p = None"
    "leaves_body example_config interrupted_pass = Some KeyboardInterrupt"
    by (simp_all add: scenario_d_def full_queue_pass_def quiet_pass_def interrupted_pass_def
          queue_raises_def leaves_body_def sleep_outcome_def example_config_def)
  have n: "length (filter publishes ([full_queue_pass, quiet_pass] @ [interrupted_pass])) = 2"
    by (simp add: publishes_def full_queue_pass_def quiet_pass_def interrupted_pass_def
          queue_raises_def)
  have d: "disconnect_raises scenario_d = None"
    by (simp add: scenario_d_def)
  from interrupt_shuts_down_once [OF h] h n d show ?thesis by auto
qed

text \<open>
  C8. A call of \<^verbatim>\<open>send_message\<close> whose put raises: the queue is opened, the put is made and
  raises, and no close follows; the call ends with the exception of the put. A call whose
  put returns does close the queue it opened.
\<close>

theorem failed_put_leaves_queue_open:
  "fst (send_message full_queue_pass (mq_queue example_config) (generate_transaction example_src)
          \<lparr>console = [], history = []\<rparr>) = Inl (Exception ''MQRC_Q_FULL'')
   \<and> map snd (history (snd (send_message full_queue_pass (mq_queue example_config)
          (generate_transaction example_src) \<lparr>console = [], history = []\<rparr>)))
       = [None, Some (Exception ''MQRC_Q_FULL'')]
   \<and> calls_of (\<lambda>c. c = Queue_open (ascii ''KAFKA.IN''))
        (snd (send_message full_queue_pass (mq_queue example_config)
          (generate_transaction example_src) \<lparr>console = [], history = []\<rparr>)) = 1
   \<and> calls_of (\<lambda>c. c = Queue_close)
        (snd (send_message full_queue_pass (mq_queue example_config)
          (generate_transaction example_src) \<lparr>console = [], history = []\<rparr>)) = 0
   \<and> calls_of (\<lambda>c. c = Queue_close)
        (snd (send_message quiet_pass (mq_queue example_config)
          (generate_transaction example_src) \<lparr>console = [], history = []\<rparr>)) = 1"
proof -
  have o: "open_raises full_queue_pass = None"
    and p: "put_raises full_queue_pass = Some (Exception ''MQRC_Q_FULL'')"
    by (simp_all add: full_queue_pass_def quiet_pass_def)
  have q: "open_raises quiet_pass = None" "put_raises quiet_pass = None"
    "close_raises quiet_pass = None"
    by (simp_all add: quiet_pass_def)
  show ?thesis
    by (simp add: send_message_put_raises [OF o p decimal_floats_generated]
          send_message_returns [OF q decimal_floats_generated] calls_of_def example_config_def)
qed

section \<open>The timestamp and the counter\<close>

text \<open>
  C9, as the claim states it, fails: a clock reading with a microsecond part of 1234 gives
  a timestamp with six fractional digits, neither three nor none.
\<close>

theorem timestamp_millisecond_counterexample:
  "dict_get (generate_transaction example_src) (ascii ''timestamp'')
     = Some (PStr (ascii ''2024-03-09T07:05:00.001234Z''))
   \<and> decimal_places (ascii ''2024-03-09T07:05:00.001234Z'') = 6
   \<and> decimal_places (ascii ''2024-03-09T07:05:00.001234Z'') \<notin> {0, 3}"
  by (simp add: generate_transaction_def ts_example decimal_places_def is_digit_def ascii_def)

text \<open>
  C9, amended. The timestamp of a generated record is the clock reading in the form
  \<^verbatim>\<open>YYYY-MM-DDTHH:MM:SS\<close>, followed by a point and six digits of microseconds unless
  the microsecond part is zero, followed by \<^verbatim>\<open>Z\<close>: microsecond or second precision.
\<close>

theorem timestamp_is_iso_with_microseconds:
  assumes "valid_datetime (utcnow g)"
  shows "\<exists>Y M D h m s frac.
    dict_get (generate_transaction g) (ascii ''timestamp'')
      = Some (PStr (Y @ ascii ''-'' @ M @ ascii ''-'' @ D @ ascii ''T'' @ h @ ascii '':'' @ m
                @ ascii '':'' @ s @ frac @ ascii ''Z''))
    \<and> map length [Y, M, D, h, m, s] = [4, 2, 2, 2, 2, 2]
    \<and> list_all (list_all is_digit) [Y, M, D, h, m, s]
    \<and> map decode_digits [Y, M, D, h, m, s]
        = [year (utcnow g), month (utcnow g), day (utcnow g), hour (utcnow g),
           minute (utcnow g), second (utcnow g)]
    \<and> (if microsecond (utcnow g) = 0 then frac = []
        else \<exists>F. frac = ascii ''.'' @ F \<and> length F = 6 \<and> list_all is_digit F
               \<and> decode_digits F = microsecond (utcnow g))"
proof -
  let ?t = "utcnow g"
  let ?frac = "if microsecond ?t \<noteq> 0 then ascii ''.'' @ zero_pad 6 (microsecond ?t) else []"
  from assms have b: "year ?t < 10 ^ 4" "month ?t < 10 ^ 2" "day ?t < 10 ^ 2" "hour ?t < 10 ^ 2"
    "minute ?t < 10 ^ 2" "second ?t < 10 ^ 2" "microsecond ?t < 10 ^ 6"
    by (simp_all add: valid_datetime_def)
  have ts: "dict_get (generate_transaction g) (ascii ''timestamp'')
      = Some (PStr (zero_pad 4 (year ?t) @ ascii ''-'' @ zero_pad 2 (month ?t) @ ascii ''-''
          @ zero_pad 2 (day ?t) @ ascii ''T'' @ zero_pad 2 (hour ?t) @ ascii '':''
          @ zero_pad 2 (minute ?t) @ ascii '':'' @ zero_pad 2 (second ?t) @ ?frac @ ascii ''Z''))"
    by (simp add: generate_transaction_def isoformat_def)
  have len: "map length [zero_pad 4 (year ?t), zero_pad 2 (month ?t), zero_pad 2 (day ?t),
      zero_pad 2 (hour ?t), zero_pad 2 (minute ?t), zero_pad 2 (second ?t)] = [4, 2, 2, 2, 2, 2]"
    using b by (simp add: length_zero_pad)
  have dig: "list_all (list_all is_digit) [zero_pad 4 (year ?t), zero_pad 2 (month ?t),
      zero_pad 2 (day ?t), zero_pad 2 (hour ?t), zero_pad 2 (minute ?t), zero_pad 2 (second ?t)]"
    by (simp add: zero_pad_digits)
  have dec: "map decode_digits [zero_pad 4 (year ?t), zero_pad 2 (month ?t), zero_pad 2 (day ?t),
      zero_pad 2 (hour ?t), zero_pad 2 (minute ?t), zero_pad 2 (second ?t)]
        = [year ?t, month ?t, day ?t, hour ?t, minute ?t, second ?t]"
    by (simp add: decode_digits_zero_pad)
  have fr: "if microsecond ?t = 0 then ?frac = []
        else \<exists>F. ?frac = ascii ''.'' @ F \<and> length F = 6 \<and> list_all is_digit F
               \<and> decode_digits F = microsecond ?t"
    using b(7) by (simp add: length_zero_pad zero_pad_digits decode_digits_zero_pad)
  show ?thesis
    by (intro exI conjI, rule ts, rule len, rule dig, rule dec, rule fr)
qed

theorem timestamp_witness:
  "valid_datetime (utcnow example_src)
   \<and> (\<exists>Y M D h m s frac.
        dict_get (generate_transaction example_src) (ascii ''timestamp'')
          = Some (PStr (Y @ ascii ''-'' @ M @ ascii ''-'' @ D @ ascii ''T'' @ h @ ascii '':'' @ m
                @ ascii '':'' @ s @ frac @ ascii ''Z''))
        \<and> map length [Y, M, D, h, m, s] = [4, 2, 2, 2, 2, 2]
        \<and> map decode_digits [Y, M, D, h, m, s] = [2024, 3, 9, 7, 5, 0]
        \<and> (\<exists>F. frac = ascii ''.'' @ F \<and> length F = 6 \<and> decode_digits F = 1234))"
proof -
  have v: "valid_datetime (utcnow example_src)"
    by (simp add: valid_datetime_def example_src_def)
  have u: "year (utcnow example_src) = 2024" "month (utcnow example_src) = 3"
    "day (utcnow example_src) = 9" "hour (utcnow example_src) = 7"
    "minute (utcnow example_src) = 5" "second (utcnow example_src) = 0"
    "microsecond (utcnow example_src) = 1234"
    by (simp_all add: example_src_def)
  from timestamp_is_iso_with_microseconds [OF v]
  obtain Y M D h m s frac where
    ts: "dict_get (generate_transaction example_src) (ascii ''timestamp'')
          = Some (PStr (Y @ ascii ''-'' @ M @ ascii ''-'' @ D @ ascii ''T'' @ h @ ascii '':'' @ m
                @ ascii '':'' @ s @ frac @ ascii ''Z''))"
    and len: "map length [Y, M, D, h, m, s] = [4, 2, 2, 2, 2, 2]"
    and dec: "map decode_digits [Y, M, D, h, m, s] = [2024, 3, 9, 7, 5, 0]"
    and fr: "\<exists>F. frac = ascii ''.'' @ F \<and> length F = 6 \<and> decode_digits F = 1234"
    unfolding u by auto
  from fr obtain F where fF: "frac = ascii ''.'' @ F" and fl: "length F = 6"
    and fd: "decode_digits F = 1234" by blast
  have "\<exists>Y M D h m s frac.
        dict_get (generate_transaction example_src) (ascii ''timestamp'')
          = Some (PStr (Y @ ascii ''-'' @ M @ ascii ''-'' @ D @ ascii ''T'' @ h @ ascii '':'' @ m
                @ ascii '':'' @ s @ frac @ ascii ''Z''))
        \<and> map length [Y, M, D, h, m, s] = [4, 2, 2, 2, 2, 2]
        \<and> map decode_digits [Y, M, D, h, m, s] = [2024, 3, 9, 7, 5, 0]
        \<and> (\<exists>F. frac = ascii ''.'' @ F \<and> length F = 6 \<and> decode_digits F = 1234)"
    by (intro exI conjI, rule ts, rule len, rule dec, rule fF, rule fl, rule fd)
  with v show ?thesis by (rule conjI)
qed

text \<open>
  C10. The counter of \<^verbatim>\<open>main\<close> is the number of sends that have returned. It is 0 when the
  loop starts; a pass adds 1 to it exactly when its send returns, and the history gains one
  returned send in exactly these passes; at every pass boundary of every run, and when
  \<^verbatim>\<open>main\<close> has stopped, the counter equals the number of returned sends in the history;
  a summary line, if one is printed, is the only one and reports the counter.
\<close>

theorem message_count_is_number_of_successful_sends:
  "(case main cfg ev of
      Startup_failed w \<Rightarrow> published w = 0
    | Startup_raised e w \<Rightarrow> published w = 0
    | Looping n w \<Rightarrow> n = published w \<and> filter is_summary (console w) = []
    | Stopped r n w \<Rightarrow> n = published w
        \<and> filter is_summary (console w)
            = (if disconnect_raises ev = None then [Disconnected n] else []))
   \<and> (connect_raises ev = None \<and> iterations ev = [] \<longrightarrow> (\<exists>w. main cfg ev = Looping 0 w))
   \<and> fst (snd (loop_body cfg q (n, w))) = n + (if publishes q then 1 else 0)
   \<and> published (snd (snd (loop_body cfg q (n, w)))) = published w + (if publishes q then 1 else 0)"
proof -
  have body: "fst (snd (loop_body cfg q (n, w))) = n + (if publishes q then 1 else 0)
     \<and> published (snd (snd (loop_body cfg q (n, w)))) = published w + (if publishes q then 1 else 0)"
    using loop_body_effect [of cfg q n w] by auto
  have start: "connect_raises ev = None \<and> iterations ev = [] \<longrightarrow> (\<exists>w. main cfg ev = Looping 0 w)"
    using connect_to_mq_returns [of cfg] by (auto simp: main_def Let_def)
  have run: "(case main cfg ev of
      Startup_failed w \<Rightarrow> published w = 0
    | Startup_raised e w \<Rightarrow> published w = 0
    | Looping n w \<Rightarrow> n = published w \<and> filter is_summary (console w) = []
    | Stopped r n w \<Rightarrow> n = published w
        \<and> filter is_summary (console w)
            = (if disconnect_raises ev = None then [Disconnected n] else []))"
  proof (cases "connect_raises ev")
    case (Some e)
    then show ?thesis
      by (simp add: main_def connect_to_mq_raises Let_def published_def)
  next
    case None
    obtain w1 where c: "connect_to_mq cfg None (banner cfg \<lparr>console = [], history = []\<rparr>) = (None, w1)"
      and p1: "published w1 = 0" and s1: "filter is_summary (console w1) = []"
      using connect_to_mq_returns [of cfg] by blast
    obtain r n' w2 where l: "producer_loop cfg (iterations ev) (0, w1) = (r, n', w2)"
      and i: "n' + published w1 = 0 + published w2" and k: "pass_keeps w1 w2"
      using producer_loop_invariant [of cfg "iterations ev" 0 w1] by blast
    have n': "n' = published w2" using i p1 by simp
    have s2: "filter is_summary (console w2) = []"
      using k s1 by (simp add: pass_keeps_def)
    show ?thesis
    proof (cases r)
      case rn: None
      then show ?thesis using None c l n' s2 by (simp add: main_def Let_def)
    next
      case (Some e)
      then show ?thesis
        using None c l n' s2
        by (cases "disconnect_raises ev") (simp_all add: main_def Let_def shutdown_def)
    qed
  qed
  from run start body show ?thesis by blast
qed

theorem message_count_witness:
  "connect_raises (scenario_c\<lparr>iterations := []\<rparr>) = None
   \<and> iterations (scenario_c\<lparr>iterations := []\<rparr>) = []
   \<and> (\<exists>w. main example_config (scenario_c\<lparr>iterations := []\<rparr>) = Looping 0 w)"
  using message_count_is_number_of_successful_sends
          [where cfg = example_config and ev = "scenario_c\<lparr>iterations := []\<rparr>"]
  by (simp add: scenario_c_def)

end
